theory Spec2Isabelle
  imports Main
begin

section \<open>JavaScript primitives used by the sources\<close>

text \<open>
  A JavaScript string is modelled as a \<^typ>\<open>string\<close>: the list of its code units, so
  that \<open>length\<close> is the \<open>.length\<close> property. A \<^typ>\<open>char\<close> has 256 values, so the
  strings of the model are those whose code units are below 256. An array is a list.
\<close>

definition clampIndex :: "nat \<Rightarrow> int \<Rightarrow> nat" where
  \<comment> \<open>An integer argument of \<open>substring\<close>: below 0 counts as 0, above the length as the length.\<close>
  "clampIndex len i = (if i < 0 then 0 else if int len < i then len else nat i)"

definition substring :: "string \<Rightarrow> int \<Rightarrow> int \<Rightarrow> string" where
  \<comment> \<open>\<open>String.prototype.substring(start, end)\<close>: both indices clamped, swapped when out of order.\<close>
  "substring s start fin =
     (let a = clampIndex (length s) start; b = clampIndex (length s) fin
      in take (max a b - min a b) (drop (min a b) s))"

definition relIndex :: "nat \<Rightarrow> int \<Rightarrow> nat" where
  \<comment> \<open>An integer argument of \<open>slice\<close>: a negative index counts from the end.\<close>
  "relIndex len i = (if i < 0 then nat (max (int len + i) 0) else min (nat i) len)"

definition slice :: "'a list \<Rightarrow> int \<Rightarrow> int \<Rightarrow> 'a list" where
  \<comment> \<open>\<open>Array.prototype.slice(start, end)\<close>.\<close>
  "slice xs start fin =
     (let a = relIndex (length xs) start; b = relIndex (length xs) fin
      in take (b - a) (drop a xs))"

section \<open>Grid constraints (constants/grid.ts)\<close>

definition COLUMNS :: nat where "COLUMNS = 40"
definition ROWS :: nat where "ROWS = 24"
definition HEADER_ROW :: nat where "HEADER_ROW = 1"
definition CONTENT_START_ROW :: nat where "CONTENT_START_ROW = 2"
definition CONTENT_ROWS :: nat where "CONTENT_ROWS = 23"

section \<open>Formatters (utils/formatters.ts)\<close>

definition truncateText :: "string \<Rightarrow> string" where
  "truncateText text =
     (if length text \<le> COLUMNS then text else substring text 0 (int COLUMNS))"

definition truncateLines :: "string list \<Rightarrow> string list" where
  "truncateLines lines =
     (if length lines \<le> CONTENT_ROWS then lines else slice lines 0 (int CONTENT_ROWS))"

definition isDigit :: "char \<Rightarrow> bool" where
  \<comment> \<open>The character class \<open>[0-9]\<close>.\<close>
  "isDigit c = (c \<in> set ''0123456789'')"

definition digitValue :: "char \<Rightarrow> nat" where
  "digitValue c = of_char c - 48"

definition digitChar :: "nat \<Rightarrow> char" where
  "digitChar d = char_of (48 + d)"

function toString :: "nat \<Rightarrow> string" where
  \<comment> \<open>\<open>Number.prototype.toString()\<close> of a non-negative integer: its decimal digits.\<close>
  "toString n = (if n < 10 then [digitChar n] else toString (n div 10) @ [digitChar (n mod 10)])"
  by pat_completeness auto
termination
  by (relation "measure id") auto

declare toString.simps [simp del]

definition padStart :: "string \<Rightarrow> nat \<Rightarrow> string \<Rightarrow> string" where
  \<comment> \<open>\<open>String.prototype.padStart(targetLength, padString)\<close>.\<close>
  "padStart s targetLength padString =
     (if targetLength \<le> length s \<or> padString = [] then s
      else take (targetLength - length s)
             (concat (replicate (targetLength - length s) padString)) @ s)"

datatype error = RangeError

definition repeat :: "string \<Rightarrow> int \<Rightarrow> error + string" where
  \<comment> \<open>\<open>String.prototype.repeat(count)\<close> throws a RangeError on a negative count.\<close>
  "repeat s count = (if count < 0 then Inl RangeError else Inr (concat (replicate (nat count) s)))"

record Date =
  getHours :: nat
  getMinutes :: nat
  getSeconds :: nat

definition formatTime :: "Date \<Rightarrow> string" where
  "formatTime date =
     (let hours = padStart (toString (getHours date)) 2 ''0'';
          minutes = padStart (toString (getMinutes date)) 2 ''0'';
          seconds = padStart (toString (getSeconds date)) 2 ''0''
      in hours @ '':'' @ minutes @ '':'' @ seconds)"

definition formatPageNumber :: "nat \<Rightarrow> string" where
  "formatPageNumber pageNumber = ''P'' @ padStart (toString pageNumber) 3 ''0''"

definition formatBuffer :: "string \<Rightarrow> string" where
  "formatBuffer buffer =
     (if length buffer = 0 then []
      else if length buffer = 1 then buffer @ ''..''
      else if length buffer = 2 then buffer @ ''.''
      else buffer)"

section \<open>Colour palette (constants/colors.ts)\<close>

definition TELETEXT_COLORS :: "(string \<times> string) list" where
  "TELETEXT_COLORS =
     [(''black'', ''#000000''), (''white'', ''#FFFFFF''), (''red'', ''#FF0000''),
      (''green'', ''#00FF00''), (''blue'', ''#0000FF''), (''yellow'', ''#FFFF00''),
      (''cyan'', ''#00FFFF''), (''magenta'', ''#FF00FF'')]"

definition isValidTeletextColor :: "string \<Rightarrow> bool" where
  \<comment> \<open>\<open>Object.hasOwn(TELETEXT_COLORS, color)\<close>: own keys only.\<close>
  "isValidTeletextColor color = (map_of TELETEXT_COLORS color \<noteq> None)"

text \<open>
  \<open>TELETEXT_COLORS[color]\<close> is a property read: an own key gives its hex string, a name
  that \<open>Object.prototype\<close> defines gives that inherited member, any other name gives
  \<open>undefined\<close>.
\<close>

datatype hexValue = Hex string | Inherited | Undefined

definition Object_prototype_keys :: "string list" where
  "Object_prototype_keys =
     [''constructor'', ''hasOwnProperty'', ''isPrototypeOf'', ''propertyIsEnumerable'',
      ''toLocaleString'', ''toString'', ''valueOf'', ''__proto__'', ''__defineGetter__'',
      ''__defineSetter__'', ''__lookupGetter__'', ''__lookupSetter__'']"

definition getTeletextColorHex :: "string \<Rightarrow> hexValue" where
  "getTeletextColorHex color =
     (case map_of TELETEXT_COLORS color of
        Some hex \<Rightarrow> Hex hex
      | None \<Rightarrow> if color \<in> set Object_prototype_keys then Inherited else Undefined)"

definition isHexDigit :: "char \<Rightarrow> bool" where
  \<comment> \<open>The character class \<open>[0-9A-F]\<close> of the palette test.\<close>
  "isHexDigit c = (isDigit c \<or> c \<in> set ''ABCDEF'')"

section \<open>Header (components/Header.tsx)\<close>

definition Header :: "string \<Rightarrow> nat \<Rightarrow> Date \<Rightarrow> error + string" where
  \<comment> \<open>The text of the header row; the RangeError is the one \<open>repeat\<close> throws.\<close>
  "Header pageName pageNumber currentTime =
     (let formattedTime = formatTime currentTime;
          formattedPageNumber = formatPageNumber pageNumber;
          leftSection = pageName;
          centerSection = formattedPageNumber;
          rightSection = formattedTime;
          contentLength = length leftSection + length centerSection + length rightSection;
          totalSpaces = int COLUMNS - int contentLength;
          spacesBeforeCenter = totalSpaces div 2;
          spacesAfterCenter = totalSpaces - spacesBeforeCenter
      in case repeat '' '' spacesBeforeCenter of
           Inl e \<Rightarrow> Inl e
         | Inr gapBefore \<Rightarrow>
             (case repeat '' '' spacesAfterCenter of
                Inl e \<Rightarrow> Inl e
              | Inr gapAfter \<Rightarrow>
                  Inr (leftSection @ gapBefore @ centerSection @ gapAfter @ rightSection)))"

section \<open>Content area (components/ContentArea.tsx)\<close>

type_synonym ColorMap = "nat \<Rightarrow> (nat \<Rightarrow> string option) option"

record PageContent =
  lines :: "string list"
  colors :: "ColorMap option"

text \<open>
  A rendered character is a \<open>span\<close>, with the \<open>color\<close> style when the annotation is
  truthy (a non-empty string). A rendered row is the plain line when its grid row has no
  colour map, and a row of spans otherwise. Beside the elements, the render returns the
  arguments of its calls of \<open>getTeletextColorHex\<close>, in order.
\<close>

datatype span = Span char | StyledSpan char hexValue

datatype contentLine = PlainLine string | SpanLine "span list"

definition renderChar :: "(nat \<Rightarrow> string option) \<Rightarrow> nat \<Rightarrow> char \<Rightarrow> span \<times> string list" where
  "renderChar colorMap colIndex ch =
     (case colorMap colIndex of
        Some color \<Rightarrow>
          if color \<noteq> [] then (StyledSpan ch (getTeletextColorHex color), [color])
          else (Span ch, [])
      | None \<Rightarrow> (Span ch, []))"

definition renderLine :: "ColorMap option \<Rightarrow> nat \<Rightarrow> string \<Rightarrow> contentLine \<times> string list" where
  "renderLine cols rowIndex line =
     (let gridRow = rowIndex + 2
      in case cols of
           None \<Rightarrow> (PlainLine line, [])
         | Some cm \<Rightarrow>
             (case cm gridRow of
                None \<Rightarrow> (PlainLine line, [])
              | Some colorMap \<Rightarrow>
                  (let cells = map (\<lambda>(colIndex, ch). renderChar colorMap colIndex ch)
                                 (zip [0..<length line] line)
                   in (SpanLine (map fst cells), concat (map snd cells)))))"

definition ContentArea :: "PageContent \<Rightarrow> contentLine list \<times> string list" where
  "ContentArea content =
     (let truncatedLines = truncateLines (lines content);
          processedLines = map truncateText truncatedLines;
          rows = map (\<lambda>(rowIndex, line). renderLine (colors content) rowIndex line)
                   (zip [0..<length processedLines] processedLines)
      in (map fst rows, concat (map snd rows)))"

text \<open>The text of a rendered row (its \<open>textContent\<close>), as the tests read it.\<close>

fun spanChar :: "span \<Rightarrow> char" where
  "spanChar (Span ch) = ch"
| "spanChar (StyledSpan ch h) = ch"

fun textContent :: "contentLine \<Rightarrow> string" where
  "textContent (PlainLine l) = l"
| "textContent (SpanLine spans) = map spanChar spans"

section \<open>Page registry (pages/registry.ts)\<close>

text \<open>
  The four dynamic content loaders of services/api.ts are named, not run: what a call of
  one of them gives is an input of the screen (see \<open>loadResult\<close> below).
\<close>

datatype DynamicContentLoader = fetchWorldNews | fetchTechNews | fetchWeather | fetchSports

record PageDefinition =
  pageNumber :: nat
  title :: string
  content :: "string list"
  dynamicContent :: "DynamicContentLoader option"
  pageColors :: "ColorMap option"

text \<open>
  The detail pages read the article cache of services/api.ts, which the loaders fill at
  run time; the three functions that format a cached article are parameters here.
\<close>

record DetailPages =
  getNewsDetailPage :: "nat \<Rightarrow> string list"
  getTechDetailPage :: "nat \<Rightarrow> string list"
  getSportsDetailPage :: "nat \<Rightarrow> string list"

definition createErrorPage :: "nat \<Rightarrow> PageDefinition" where
  "createErrorPage requestedPageNumber =
     \<lparr>pageNumber = requestedPageNumber,
      title = ''Error'',
      content =
        [''PAGE NOT FOUND'',
         '''',
         ''Page '' @ toString requestedPageNumber @ '' does not exist.'',
         '''',
         ''Please try another page number.'',
         '''',
         ''Press 100 to return to the index.''],
      dynamicContent = None,
      pageColors = None\<rparr>"

definition createDetailPage :: "nat \<Rightarrow> string \<Rightarrow> (nat \<Rightarrow> string list) \<Rightarrow> PageDefinition" where
  "createDetailPage pageNum ttl getContent =
     (let articleIndex = pageNum mod 10
      in \<lparr>pageNumber = pageNum, title = ttl, content = getContent articleIndex,
          dynamicContent = None, pageColors = None\<rparr>)"

definition pageRegistry :: "nat \<Rightarrow> PageDefinition option" where
  "pageRegistry n =
     (if n = 100 then Some
        \<lparr>pageNumber = 100, title = ''Index'',
         content =
           [''WELCOME TO TELETEXT ZERO'', '''', ''A Slow Web Browser'', '''',
            ''Main Sections:'', '''', ''200 - World News (BBC)'',
            ''300 - Tech News (The Verge)'', ''400 - Weather'', ''500 - Sports (ESPN)'',
            '''', ''666 - ???'', '''', ''Enter a 3-digit page number'', ''to navigate.''],
         dynamicContent = None, pageColors = None\<rparr>
      else if n = 200 then Some
        \<lparr>pageNumber = 200, title = ''World News'',
         content =
           [''BBC WORLD NEWS'', '''', ''LOADING...'', '''',
            ''Please wait while we fetch'', ''the latest headlines.''],
         dynamicContent = Some fetchWorldNews, pageColors = None\<rparr>
      else if n = 300 then Some
        \<lparr>pageNumber = 300, title = ''Tech News'',
         content =
           [''THE VERGE'', '''', ''LOADING...'', '''',
            ''Please wait while we fetch'', ''the latest tech headlines.''],
         dynamicContent = Some fetchTechNews, pageColors = None\<rparr>
      else if n = 400 then Some
        \<lparr>pageNumber = 400, title = ''Weather'',
         content =
           [''WEATHER FORECAST'', '''', ''LOADING...'', '''',
            ''Fetching weather data...'', '''', ''Location access may be required.''],
         dynamicContent = Some fetchWeather, pageColors = None\<rparr>
      else if n = 500 then Some
        \<lparr>pageNumber = 500, title = ''Sports'',
         content =
           [''ESPN SPORTS'', '''', ''LOADING...'', '''',
            ''Please wait while we fetch'', ''the latest sports news.''],
         dynamicContent = Some fetchSports, pageColors = None\<rparr>
      else if n = 666 then Some
        \<lparr>pageNumber = 666, title = ''System Diagnostics'',
         content =
           [''SYSTEM DIAGNOSTICS'', '''', ''================================'', '''',
            ''SIGNAL DECAY............... 99%'', ''MEMORY CORRUPTION.......... 87%'',
            ''TEMPORAL DRIFT............. ACTIVE'', '''',
            ''================================'', '''',
            ''SUBJECT: WATCHING'', ''STATUS: AWARE'', '''',
            ''WARNING: ANOMALY DETECTED'', '''', ''DO NOT LOOK BEHIND YOU'', '''',
            ''================================'', '''',
            ''LAST TRANSMISSION: 1983-10-31'', ''ORIGIN: UNKNOWN'', '''',
            ''THEY NEVER LEFT''],
         dynamicContent = None, pageColors = None\<rparr>
      else None)"

definition isDetailPage :: "nat \<Rightarrow> bool" where
  "isDetailPage n =
     (if n \<ge> 201 \<and> n \<le> 205 then True
      else if n \<ge> 301 \<and> n \<le> 305 then True
      else if n \<ge> 501 \<and> n \<le> 505 then True
      else False)"

definition getDetailPageDefinition :: "DetailPages \<Rightarrow> nat \<Rightarrow> PageDefinition" where
  "getDetailPageDefinition api n =
     (if n \<ge> 201 \<and> n \<le> 205 then createDetailPage n ''News Article'' (getNewsDetailPage api)
      else if n \<ge> 301 \<and> n \<le> 305 then createDetailPage n ''Tech Article'' (getTechDetailPage api)
      else if n \<ge> 501 \<and> n \<le> 505 then createDetailPage n ''Sports Article'' (getSportsDetailPage api)
      else createErrorPage n)"

definition getPage :: "DetailPages \<Rightarrow> nat \<Rightarrow> PageDefinition" where
  "getPage api n =
     (case pageRegistry n of
        Some page \<Rightarrow> page
      | None \<Rightarrow> if isDetailPage n then getDetailPageDefinition api n else createErrorPage n)"

definition isInfixOf :: "string \<Rightarrow> string \<Rightarrow> bool" where
  \<comment> \<open>\<open>haystack.includes(needle)\<close>.\<close>
  "isInfixOf needle haystack =
     list_ex (\<lambda>i. take (length needle) (drop i haystack) = needle) [0..<Suc (length haystack)]"

section \<open>Navigation (hooks/useNavigation.ts, components/KeyboardNavigationHandler.tsx)\<close>

text \<open>
  A page number held by the hook is a JavaScript number: an integer, or \<open>NaN\<close> when
  \<open>parseInt\<close> finds no digit.
\<close>

datatype number = NaN | Num int

definition isWhiteSpace :: "char \<Rightarrow> bool" where
  \<comment> \<open>White space and line terminators (\<open>\s\<close>), among the code units below 256.\<close>
  "isWhiteSpace c = ((of_char c :: nat) \<in> set [9, 10, 11, 12, 13, 32, 160])"

definition digitsValue :: "string \<Rightarrow> nat" where
  "digitsValue ds = foldl (\<lambda>acc c. 10 * acc + digitValue c) 0 ds"

definition parseInt :: "string \<Rightarrow> number" where
  \<comment> \<open>\<open>parseInt(s, 10)\<close>: leading white space, an optional sign, the longest run of digits.\<close>
  "parseInt s =
     (let t = dropWhile isWhiteSpace s;
          negative = (t \<noteq> [] \<and> hd t = CHR ''-'');
          u = (if t \<noteq> [] \<and> (hd t = CHR ''-'' \<or> hd t = CHR ''+'') then tl t else t);
          ds = takeWhile isDigit u
      in if ds = [] then NaN
         else Num (if negative then - int (digitsValue ds) else int (digitsValue ds)))"

definition isDigitKey :: "string \<Rightarrow> bool" where
  \<comment> \<open>\<open>/^[0-9]$/.test(key)\<close>: the whole string is one digit.\<close>
  "isDigitKey k = (case k of [c] \<Rightarrow> isDigit c | _ \<Rightarrow> False)"

record NavigationState =
  currentPage :: number
  pageBuffer :: string
  isNavigating :: bool

text \<open>
  The callbacks the hook hands to \<open>setTimeout(..., 0)\<close>: the one that resolves a full
  buffer to the page it parsed, and the one that lowers \<open>isNavigating\<close>. They run later,
  each on its own, in the order they were queued.
\<close>

datatype timeout = Resolve number | EndNavigating

text \<open>
  The hook: its three state cells, the queue of pending timeouts, and the page changes
  it has announced, that is the arguments of its \<open>setCurrentPage\<close> calls, oldest first.
\<close>

record Navigation = NavigationState +
  timeouts :: "timeout list"
  pageChanges :: "number list"

definition useNavigation :: "number \<Rightarrow> Navigation" where
  "useNavigation initialPage =
     \<lparr>currentPage = initialPage, pageBuffer = [], isNavigating = False,
      timeouts = [], pageChanges = []\<rparr>"

definition addDigit :: "string \<Rightarrow> Navigation \<Rightarrow> Navigation" where
  "addDigit digit s =
     (if \<not> isDigitKey digit then s
      else if length (pageBuffer s) \<ge> 3 then s
      else
        (let newBuffer = pageBuffer s @ digit
         in if length newBuffer = 3
            then s\<lparr>pageBuffer := newBuffer,
                   timeouts := timeouts s @ [Resolve (parseInt newBuffer)]\<rparr>
            else s\<lparr>pageBuffer := newBuffer\<rparr>))"

definition clearBuffer :: "Navigation \<Rightarrow> Navigation" where
  "clearBuffer s = s\<lparr>pageBuffer := []\<rparr>"

definition navigateToPage :: "number \<Rightarrow> Navigation \<Rightarrow> Navigation" where
  "navigateToPage n s =
     s\<lparr>isNavigating := True, currentPage := n, pageBuffer := [],
       pageChanges := pageChanges s @ [n],
       timeouts := timeouts s @ [EndNavigating]\<rparr>"

fun runTimeout :: "timeout \<Rightarrow> Navigation \<Rightarrow> Navigation" where
  "runTimeout (Resolve n) s =
     s\<lparr>isNavigating := True, currentPage := n, pageBuffer := [],
       pageChanges := pageChanges s @ [n],
       timeouts := timeouts s @ [EndNavigating]\<rparr>"
| "runTimeout EndNavigating s = s\<lparr>isNavigating := False\<rparr>"

definition timerFires :: "Navigation \<Rightarrow> Navigation" where
  \<comment> \<open>The event loop runs the oldest pending timeout, if there is one.\<close>
  "timerFires s =
     (case timeouts s of
        [] \<Rightarrow> s
      | t # ts \<Rightarrow> runTimeout t (s\<lparr>timeouts := ts\<rparr>))"

text \<open>
  A keydown event carries its key and the modifier flags; the handler reads the key only.
\<close>

record KeyboardEvent =
  key :: string
  shiftKey :: bool
  ctrlKey :: bool
  altKey :: bool
  metaKey :: bool

definition handleKeyDown :: "KeyboardEvent \<Rightarrow> Navigation \<Rightarrow> Navigation" where
  "handleKeyDown event s = (if isDigitKey (key event) then addDigit (key event) s else s)"

text \<open>What the event loop delivers to the page: keystrokes and expired timeouts.\<close>

datatype event = KeyDown KeyboardEvent | Timer

fun dispatch :: "event \<Rightarrow> Navigation \<Rightarrow> Navigation" where
  "dispatch (KeyDown e) s = handleKeyDown e s"
| "dispatch Timer s = timerFires s"

definition run :: "event list \<Rightarrow> Navigation \<Rightarrow> Navigation" where
  "run es s = foldl (\<lambda>st e. dispatch e st) s es"

definition digitKeys :: "event list \<Rightarrow> string" where
  \<comment> \<open>The digit characters among the keystrokes, in order.\<close>
  "digitKeys es =
     concat (map (\<lambda>e. case e of KeyDown k \<Rightarrow> if isDigitKey (key k) then key k else [] | Timer \<Rightarrow> []) es)"

text \<open>
  The three phases of the hook, for the digit characters \<open>ds\<close> typed since it was
  created on page \<open>p\<close>: fewer than three digits typed and nothing pending; three or
  more typed and the first three waiting in the buffer for their timeout; the first
  page change announced.
\<close>

definition navPhase :: "number \<Rightarrow> string \<Rightarrow> Navigation \<Rightarrow> bool" where
  "navPhase p ds st \<longleftrightarrow>
     (pageChanges st = [] \<and> timeouts st = [] \<and> pageBuffer st = ds \<and> length ds < 3 \<and>
        currentPage st = p) \<or>
     (pageChanges st = [] \<and> timeouts st = [Resolve (parseInt (take 3 ds))] \<and>
        pageBuffer st = take 3 ds \<and> 3 \<le> length ds \<and> currentPage st = p) \<or>
     (pageChanges st \<noteq> [] \<and> hd (pageChanges st) = parseInt (take 3 ds) \<and> 3 \<le> length ds)"

section \<open>Screen (components/TeletextScreen.tsx)\<close>

datatype ScreenState = static | loading | display

record TeletextScreen =
  screenState :: ScreenState
  displayedPage :: nat
  isInitialized :: bool
  loadedContent :: "string list option"
  isLoadingDynamic :: bool

text \<open>
  \<open>loadedContent\<close> is the state cell the source calls \<open>dynamicContent\<close> (\<open>None\<close> is
  \<open>null\<close>). A call of a loader ends in one of three ways: its promise is fulfilled with
  lines, its promise is rejected, or the call itself throws.
\<close>

datatype loadResult = Fulfilled "string list" | Rejected | Threw

definition initialScreen :: TeletextScreen where
  "initialScreen =
     \<lparr>screenState = static, displayedPage = 100, isInitialized = False,
      loadedContent = None, isLoadingDynamic = False\<rparr>"

definition loadStart :: "TeletextScreen \<Rightarrow> TeletextScreen" where
  \<comment> \<open>The state while the loader's promise is pending.\<close>
  "loadStart s = s\<lparr>isLoadingDynamic := True, loadedContent := None\<rparr>"

definition loadDynamicContent ::
  "DetailPages \<Rightarrow> (DynamicContentLoader \<Rightarrow> loadResult) \<Rightarrow> nat \<Rightarrow> TeletextScreen \<Rightarrow> TeletextScreen" where
  \<comment> \<open>The state once the \<open>try\<close>/\<open>catch\<close>/\<open>finally\<close> has run; \<open>call\<close> is what each loader does.\<close>
  "loadDynamicContent api call pageNum s =
     (let pageDef = getPage api pageNum
      in case dynamicContent pageDef of
           Some loader \<Rightarrow>
             (case call loader of
                Fulfilled lns \<Rightarrow>
                  (loadStart s)\<lparr>loadedContent := Some lns, isLoadingDynamic := False\<rparr>
              | _ \<Rightarrow>
                  (loadStart s)\<lparr>loadedContent :=
                                   Some [''ERROR LOADING CONTENT'', '''', ''Please try again later.''],
                                 isLoadingDynamic := False\<rparr>)
         | None \<Rightarrow> s\<lparr>loadedContent := None\<rparr>)"

definition startTransition :: "nat \<Rightarrow> TeletextScreen \<Rightarrow> TeletextScreen" where
  \<comment> \<open>The effect that runs when \<open>currentPage\<close> changes: blank the screen.\<close>
  "startTransition page s =
     (if isInitialized s \<and> page \<noteq> displayedPage s
      then s\<lparr>screenState := loading, loadedContent := None\<rparr>
      else s)"

definition finishTransition ::
  "DetailPages \<Rightarrow> (DynamicContentLoader \<Rightarrow> loadResult) \<Rightarrow> nat \<Rightarrow> TeletextScreen \<Rightarrow> TeletextScreen" where
  \<comment> \<open>The 100 ms timeout of that effect: show the page, then load its dynamic content.\<close>
  "finishTransition api call page s =
     loadDynamicContent api call page (s\<lparr>displayedPage := page, screenState := display\<rparr>)"

definition originalContent :: "DetailPages \<Rightarrow> TeletextScreen \<Rightarrow> string list" where
  \<comment> \<open>The lines the screen hands to the page (before the effects of page 666).\<close>
  "originalContent api s =
     (let pageDefinition = getPage api (displayedPage s);
          baseContent = (case loadedContent s of Some c \<Rightarrow> c | None \<Rightarrow> content pageDefinition)
      in if isLoadingDynamic s
         then slice (content pageDefinition) 0 3 @ ['''', ''FETCHING DATA...'', '''', ''Please wait.'']
         else baseContent)"

section \<open>Word wrap (services/api.ts)\<close>

function removeTags :: "string \<Rightarrow> string" where
  \<comment> \<open>\<open>replace(/<[^>]*>/g, '')\<close>: a \<open><\<close> and everything up to the next \<open>>\<close>.\<close>
  "removeTags [] = []"
| "removeTags (c # cs) =
     (if c = CHR ''<'' \<and> CHR ''>'' \<in> set cs
      then removeTags (tl (dropWhile (\<lambda>x. x \<noteq> CHR ''>'') cs))
      else c # removeTags cs)"
  by pat_completeness auto
termination
  by (relation "measure length")
     (auto simp: less_Suc_eq_le intro: le_trans [OF diff_le_self length_dropWhile_le])

function replaceAll :: "string \<Rightarrow> string \<Rightarrow> string \<Rightarrow> string" where
  \<comment> \<open>\<open>replace(/pat/g, rep)\<close> for a literal, non-empty pattern.\<close>
  "replaceAll pat rep [] = []"
| "replaceAll pat rep (c # cs) =
     (if pat \<noteq> [] \<and> take (length pat) (c # cs) = pat
      then rep @ replaceAll pat rep (drop (length pat) (c # cs))
      else c # replaceAll pat rep cs)"
  by pat_completeness auto
termination
  by (relation "measure (\<lambda>(pat, rep, s). length s)") auto

function collapseWhiteSpace :: "string \<Rightarrow> string" where
  \<comment> \<open>\<open>replace(/\s+/g, ' ')\<close>.\<close>
  "collapseWhiteSpace [] = []"
| "collapseWhiteSpace (c # cs) =
     (if isWhiteSpace c then CHR '' '' # collapseWhiteSpace (dropWhile isWhiteSpace cs)
      else c # collapseWhiteSpace cs)"
  by pat_completeness auto
termination
  by (relation "measure length") (auto simp: less_Suc_eq_le length_dropWhile_le)

definition trim :: "string \<Rightarrow> string" where
  "trim s = rev (dropWhile isWhiteSpace (rev (dropWhile isWhiteSpace s)))"

fun splitOn :: "char \<Rightarrow> string \<Rightarrow> string list" where
  \<comment> \<open>\<open>s.split(sep)\<close> for a one-character separator: the empty string gives one empty field.\<close>
  "splitOn sep [] = [[]]"
| "splitOn sep (c # cs) =
     (if c = sep then [] # splitOn sep cs
      else (case splitOn sep cs of w # ws \<Rightarrow> (c # w) # ws | [] \<Rightarrow> [[c]]))"

definition cleanText :: "string \<Rightarrow> string" where
  "cleanText text =
     trim (collapseWhiteSpace
       (replaceAll ''&#39;'' [CHR 0x27]
         (replaceAll ''&quot;'' [CHR 0x22]
           (replaceAll ''&gt;'' ''>''
             (replaceAll ''&lt;'' ''<''
               (replaceAll ''&amp;'' ''&''
                 (replaceAll ''&nbsp;'' '' ''
                   (removeTags text))))))))"

text \<open>
  The loop that breaks a long word into chunks adds \<open>width\<close> to its index each round:
  with \<open>width = 0\<close> it never ends, which is the value \<open>None\<close> here.
\<close>

partial_function (option) chunkLoop :: "string \<Rightarrow> nat \<Rightarrow> nat \<Rightarrow> string list \<Rightarrow> string list option" where
  "chunkLoop word width i lns =
     (if i < length word
      then chunkLoop word width (i + width) (lns @ [substring word (int i) (int (i + width))])
      else Some lns)"

declare chunkLoop.simps [code]

definition pushLine :: "string list \<Rightarrow> string \<Rightarrow> string list" where
  \<comment> \<open>\<open>if (currentLine) lines.push(currentLine)\<close>.\<close>
  "pushLine lns currentLine = (if currentLine \<noteq> [] then lns @ [currentLine] else lns)"

fun wrapWords :: "nat \<Rightarrow> string list \<Rightarrow> string list \<Rightarrow> string \<Rightarrow> (string list \<times> string) option" where
  \<comment> \<open>The \<open>for\<close> loop over the words, on \<open>lines\<close> and \<open>currentLine\<close>.\<close>
  "wrapWords width [] lns currentLine = Some (lns, currentLine)"
| "wrapWords width (word # ws) lns currentLine =
     (if length word > width
      then (case chunkLoop word width 0 (pushLine lns currentLine) of
              None \<Rightarrow> None
            | Some lns' \<Rightarrow> wrapWords width ws lns' [])
      else
        (let testLine = (if currentLine \<noteq> [] then currentLine @ '' '' @ word else word)
         in if length testLine \<le> width
            then wrapWords width ws lns testLine
            else wrapWords width ws (pushLine lns currentLine) word))"

definition wordWrap :: "string \<Rightarrow> nat \<Rightarrow> string list option" where
  "wordWrap text width =
     (if text = [] then Some []
      else
        (let ws = splitOn CHR '' '' (cleanText text)
         in case wrapWords width ws [] [] of
              None \<Rightarrow> None
            | Some (lns, currentLine) \<Rightarrow> Some (pushLine lns currentLine)))"

text \<open>
  The pieces of a word cut every \<open>w\<close> characters, in order: what the chunk loop appends
  (see \<open>chunkLoop_eq\<close> below).
\<close>

function chunksOf :: "nat \<Rightarrow> 'a list \<Rightarrow> 'a list list" where
  "chunksOf w xs = (if w = 0 \<or> xs = [] then [] else take w xs # chunksOf w (drop w xs))"
  by pat_completeness auto
termination
  by (relation "measure (\<lambda>(w, xs). length xs)") auto

declare chunksOf.simps [simp del]

section \<open>Truncation\<close>

lemma substring_prefix: "substring s 0 (int n) = take n s"
  by (simp add: substring_def clampIndex_def Let_def min_def max_def)

lemma slice_prefix: "slice xs 0 (int n) = take n xs"
  by (simp add: slice_def relIndex_def Let_def min_def)

lemma truncateText_take: "truncateText s = take 40 s"
  using substring_prefix [of s 40] by (simp add: truncateText_def COLUMNS_def)

lemma truncateLines_take: "truncateLines L = take 23 L"
  using slice_prefix [of L 23] by (simp add: truncateLines_def CONTENT_ROWS_def)

text \<open>
  C7. \<open>truncateText s\<close> is \<open>s\<close> when \<open>s\<close> has at most 40 code units and otherwise its
  first 40 code units; \<open>truncateLines L\<close> is \<open>L\<close> when \<open>L\<close> has at most 23 entries and
  otherwise its first 23 entries in their order. Both are total functions: they return a
  value for every input, the empty string and the empty array included.
\<close>

theorem truncate_spec:
  "truncateText s = (if length s \<le> 40 then s else take 40 s) \<and>
   truncateLines L = (if length L \<le> 23 then L else take 23 L) \<and>
   truncateText [] = [] \<and> truncateLines [] = []"
  by (simp add: truncateText_take truncateLines_take)

theorem truncate_spec_witness:
  "truncateText ''TELETEXT'' = ''TELETEXT'' \<and>
   truncateText (replicate 41 CHR ''x'') = replicate 40 CHR ''x'' \<and>
   truncateLines (replicate 24 ''row'') = replicate 23 ''row''"
  using truncate_spec [of "''TELETEXT''" "replicate 24 ''row''"]
        truncate_spec [of "replicate 41 CHR ''x''" "[]"]
  by simp

text \<open>
  C8. Truncation is idempotent: truncating a truncated string, or a truncated array of
  lines, changes nothing. (Purity and determinism are what it means for the two
  operations to be functions of their argument.)
\<close>

theorem truncate_idempotent:
  "truncateText (truncateText s) = truncateText s \<and>
   truncateLines (truncateLines L) = truncateLines L"
  by (simp add: truncateText_take truncateLines_take)

section \<open>Header layout\<close>

lemma digitChar_zero: "digitChar 0 = CHR ''0''"
  by code_simp

lemma toString_1: "n < 10 \<Longrightarrow> toString n = [digitChar n]"
  by (subst toString.simps) simp

lemma toString_2: "10 \<le> n \<Longrightarrow> n < 100 \<Longrightarrow> toString n = [digitChar (n div 10), digitChar (n mod 10)]"
  by (subst toString.simps) (simp add: toString_1)

lemma toString_3: "100 \<le> n \<Longrightarrow> n < 1000 \<Longrightarrow>
    toString n = [digitChar (n div 100), digitChar (n div 10 mod 10), digitChar (n mod 10)]"
proof -
  assume a: "100 \<le> n" "n < 1000"
  then have "10 \<le> n div 10" "n div 10 < 100" by simp_all
  then have "toString (n div 10) = [digitChar (n div 10 div 10), digitChar (n div 10 mod 10)]"
    by (rule toString_2)
  moreover have "n div 10 div 10 = n div 100" by (simp add: div_mult2_eq [symmetric])
  ultimately show ?thesis using a by (subst toString.simps) simp
qed

lemma repeat_space: "0 \<le> k \<Longrightarrow> repeat '' '' k = Inr (replicate (nat k) CHR '' '')"
proof -
  have "concat (replicate m '' '') = replicate m CHR '' ''" for m
    by (induction m) simp_all
  then show "0 \<le> k \<Longrightarrow> repeat '' '' k = Inr (replicate (nat k) CHR '' '')"
    by (simp add: repeat_def)
qed


lemma rep2: "replicate 2 c = [c, c]" by (simp add: eval_nat_numeral)

lemma pad2: "n < 100 \<Longrightarrow> padStart (toString n) 2 ''0'' = [digitChar (n div 10), digitChar (n mod 10)]"
proof (cases "n < 10")
  case True
  then show ?thesis by (simp add: padStart_def toString_1 digitChar_zero)
next
  case False
  assume "n < 100"
  with False have "toString n = [digitChar (n div 10), digitChar (n mod 10)]"
    by (intro toString_2) simp_all
  then show ?thesis by (simp add: padStart_def)
qed

lemma pad3: "n < 1000 \<Longrightarrow>
    padStart (toString n) 3 ''0'' = [digitChar (n div 100), digitChar (n div 10 mod 10), digitChar (n mod 10)]"
proof -
  assume n: "n < 1000"
  consider "n < 10" | "10 \<le> n" "n < 100" | "100 \<le> n" by linarith
  then show ?thesis
  proof cases
    case 1
    then have "toString n = [digitChar n]" by (rule toString_1)
    with 1 show ?thesis by (simp add: padStart_def digitChar_zero rep2)
  next
    case 2
    then have "toString n = [digitChar (n div 10), digitChar (n mod 10)]" by (rule toString_2)
    with 2 show ?thesis by (simp add: padStart_def digitChar_zero)
  next
    case 3
    with n have "toString n = [digitChar (n div 100), digitChar (n div 10 mod 10), digitChar (n mod 10)]"
      by (intro toString_3)
    then show ?thesis by (simp add: padStart_def)
  qed
qed

lemma formatTime_digits:
  "getHours t < 100 \<Longrightarrow> getMinutes t < 100 \<Longrightarrow> getSeconds t < 100 \<Longrightarrow>
   formatTime t =
     [digitChar (getHours t div 10), digitChar (getHours t mod 10), CHR '':'',
      digitChar (getMinutes t div 10), digitChar (getMinutes t mod 10), CHR '':'',
      digitChar (getSeconds t div 10), digitChar (getSeconds t mod 10)]"
  by (simp add: formatTime_def pad2)

lemma formatPageNumber_digits:
  "n < 1000 \<Longrightarrow> formatPageNumber n =
     [CHR ''P'', digitChar (n div 100), digitChar (n div 10 mod 10), digitChar (n mod 10)]"
  by (simp add: formatPageNumber_def pad3)


lemma Header_eq:
  assumes "length pageName + 4 + 8 \<le> 40" "length (formatPageNumber n) = 4" "length (formatTime t) = 8"
  shows "Header pageName n t =
     Inr (pageName @ replicate ((28 - length pageName) div 2) CHR '' '' @ formatPageNumber n
          @ replicate ((28 - length pageName) - (28 - length pageName) div 2) CHR '' '' @ formatTime t)"
proof -
  let ?T = "int COLUMNS - int (length pageName + length (formatPageNumber n) + length (formatTime t))"
  have T: "?T = int (28 - length pageName)" using assms by (simp add: COLUMNS_def)
  have b: "nat (?T div 2) = (28 - length pageName) div 2" unfolding T by (simp add: nat_div_distrib)
  have a: "nat (?T - ?T div 2) = (28 - length pageName) - (28 - length pageName) div 2"
    unfolding T by linarith
  have nb: "0 \<le> ?T div 2" unfolding T by simp
  have na: "0 \<le> ?T - ?T div 2" unfolding T by linarith
  show ?thesis
    unfolding Header_def Let_def
    by (simp only: repeat_space [OF nb] repeat_space [OF na] a b sum.case)
qed


text \<open>
  C3. When \<open>pageName.length + 4 + 8 \<le> 40\<close>, the page number is at most 999 and the
  time is a valid time of day, the header has exactly 40 characters, starts with the
  page name, ends with the 8 characters of the zero-padded \<open>HH:MM:SS\<close> time, and holds
  the token \<open>P\<close> with the page number zero-padded to 3 digits between two runs of
  spaces: the first of half the free space rounded down, the second of half rounded up,
  so that an odd space goes after the centre token.
\<close>

theorem header_layout:
  assumes "length pageName + 4 + 8 \<le> 40" and "num \<le> 999"
    and "getHours t < 24" and "getMinutes t < 60" and "getSeconds t < 60"
  shows "\<exists>h.
      Header pageName num t = Inr h \<and> length h = 40 \<and>
      take (length pageName) h = pageName \<and>
      drop 32 h = formatTime t \<and>
      formatTime t =
        [digitChar (getHours t div 10), digitChar (getHours t mod 10), CHR '':'',
         digitChar (getMinutes t div 10), digitChar (getMinutes t mod 10), CHR '':'',
         digitChar (getSeconds t div 10), digitChar (getSeconds t mod 10)] \<and>
      formatPageNumber num =
        [CHR ''P'', digitChar (num div 100), digitChar (num div 10 mod 10),
         digitChar (num mod 10)] \<and>
      h = pageName @ replicate ((28 - length pageName) div 2) CHR '' ''
            @ formatPageNumber num
            @ replicate ((28 - length pageName + 1) div 2) CHR '' '' @ formatTime t"
proof -
  have ft: "formatTime t =
        [digitChar (getHours t div 10), digitChar (getHours t mod 10), CHR '':'',
         digitChar (getMinutes t div 10), digitChar (getMinutes t mod 10), CHR '':'',
         digitChar (getSeconds t div 10), digitChar (getSeconds t mod 10)]"
    using assms by (intro formatTime_digits) simp_all
  have fp: "formatPageNumber num =
        [CHR ''P'', digitChar (num div 100), digitChar (num div 10 mod 10),
         digitChar (num mod 10)]"
    using assms by (intro formatPageNumber_digits) simp
  have lt: "length (formatTime t) = 8" by (simp add: ft)
  have lp: "length (formatPageNumber num) = 4" by (simp add: fp)
  define b where "b = (28 - length pageName) div 2"
  define a where "a = (28 - length pageName + 1) div 2"
  define h where "h = pageName @ replicate b CHR '' '' @ formatPageNumber num
            @ replicate a CHR '' '' @ formatTime t"
  have a': "a = (28 - length pageName) - b" unfolding a_def b_def by linarith
  have H: "Header pageName num t = Inr h"
    unfolding h_def a' unfolding b_def by (rule Header_eq [OF assms(1) lp lt])
  have ab: "length pageName + b + 4 + a = 32"
    using assms(1) unfolding a' b_def by linarith
  have len: "length h = 40" using ab by (simp add: h_def lt lp)
  have pre: "take (length pageName) h = pageName" by (simp add: h_def)
  have "drop (length pageName + b + 4 + a) h = formatTime t"
    by (simp add: h_def lp)
  then have suf: "drop 32 h = formatTime t" by (simp only: ab)
  have eq: "h = pageName @ replicate ((28 - length pageName) div 2) CHR '' ''
            @ formatPageNumber num
            @ replicate ((28 - length pageName + 1) div 2) CHR '' '' @ formatTime t"
    unfolding h_def a_def b_def by (rule refl)
  from H len pre suf ft fp eq show ?thesis by (intro exI [of _ h] conjI)
qed

theorem header_layout_witness:
  "Header ''TELETEXT ZERO'' 7 \<lparr>getHours = 9, getMinutes = 5, getSeconds = 59\<rparr> =
     Inr ''TELETEXT ZERO       P007        09:05:59''"
proof -
  let ?t = "\<lparr>getHours = 9, getMinutes = 5, getSeconds = 59\<rparr>"
  have "\<exists>h. Header ''TELETEXT ZERO'' 7 ?t = Inr h \<and> length h = 40 \<and>
      take (length ''TELETEXT ZERO'') h = ''TELETEXT ZERO'' \<and>
      drop 32 h = formatTime ?t \<and>
      formatTime ?t =
        [digitChar (getHours ?t div 10), digitChar (getHours ?t mod 10), CHR '':'',
         digitChar (getMinutes ?t div 10), digitChar (getMinutes ?t mod 10), CHR '':'',
         digitChar (getSeconds ?t div 10), digitChar (getSeconds ?t mod 10)] \<and>
      formatPageNumber 7 =
        [CHR ''P'', digitChar (7 div 100), digitChar (7 div 10 mod 10), digitChar (7 mod 10)] \<and>
      h = ''TELETEXT ZERO'' @ replicate ((28 - length ''TELETEXT ZERO'') div 2) CHR '' ''
            @ formatPageNumber 7
            @ replicate ((28 - length ''TELETEXT ZERO'' + 1) div 2) CHR '' '' @ formatTime ?t"
    by (rule header_layout) simp_all
  then obtain h where H: "Header ''TELETEXT ZERO'' 7 ?t = Inr h"
    and eq: "h = ''TELETEXT ZERO'' @ replicate ((28 - length ''TELETEXT ZERO'') div 2) CHR '' ''
            @ formatPageNumber 7
            @ replicate ((28 - length ''TELETEXT ZERO'' + 1) div 2) CHR '' '' @ formatTime ?t"
    by blast
  have "h = ''TELETEXT ZERO       P007        09:05:59''" unfolding eq by code_simp
  with H show ?thesis by simp
qed


section \<open>Palette\<close>

lemma isValid_iff: "isValidTeletextColor name \<longleftrightarrow>
   name \<in> {''black'', ''white'', ''red'', ''green'', ''blue'', ''yellow'', ''cyan'', ''magenta''}"
  by (auto simp: isValidTeletextColor_def TELETEXT_COLORS_def)

text \<open>
  C9. \<open>isValidTeletextColor\<close> holds of exactly the 8 lower-case palette names (the
  match is exact, so \<open>Red\<close> is not valid), and for each of them \<open>getTeletextColorHex\<close>
  returns \<open>#\<close> followed by 6 hex digits, one of the 8 palette values.
\<close>

theorem palette_spec:
  "(isValidTeletextColor name \<longleftrightarrow>
      name \<in> {''black'', ''white'', ''red'', ''green'', ''blue'', ''yellow'', ''cyan'', ''magenta''}) \<and>
   (name \<in> {''black'', ''white'', ''red'', ''green'', ''blue'', ''yellow'', ''cyan'', ''magenta''} \<longrightarrow>
      (\<exists>h. getTeletextColorHex name = Hex (CHR ''#'' # h) \<and> length h = 6 \<and>
           list_all isHexDigit h \<and>
           CHR ''#'' # h \<in> {''#000000'', ''#FFFFFF'', ''#FF0000'', ''#00FF00'', ''#0000FF'',
                              ''#FFFF00'', ''#00FFFF'', ''#FF00FF''}))"
proof (intro conjI impI)
  show "isValidTeletextColor name \<longleftrightarrow>
      name \<in> {''black'', ''white'', ''red'', ''green'', ''blue'', ''yellow'', ''cyan'', ''magenta''}"
    by (rule isValid_iff)
next
  assume "name \<in> {''black'', ''white'', ''red'', ''green'', ''blue'', ''yellow'', ''cyan'', ''magenta''}"
  then show "\<exists>h. getTeletextColorHex name = Hex (CHR ''#'' # h) \<and> length h = 6 \<and>
           list_all isHexDigit h \<and>
           CHR ''#'' # h \<in> {''#000000'', ''#FFFFFF'', ''#FF0000'', ''#00FF00'', ''#0000FF'',
                              ''#FFFF00'', ''#00FFFF'', ''#FF00FF''}"
    by (auto simp: getTeletextColorHex_def TELETEXT_COLORS_def isHexDigit_def isDigit_def)
qed

theorem palette_spec_witness:
  "isValidTeletextColor ''red'' \<and> \<not> isValidTeletextColor ''Red'' \<and>
   \<not> isValidTeletextColor ''purple'' \<and> \<not> isValidTeletextColor ''toString'' \<and>
   (\<exists>h. getTeletextColorHex ''red'' = Hex (CHR ''#'' # h) \<and> length h = 6)"
  using palette_spec [of "''red''"] palette_spec [of "''Red''"] palette_spec [of "''purple''"]
    palette_spec [of "''toString''"]
  by auto

section \<open>Unknown pages\<close>

lemma isInfixOf_mid: "isInfixOf x (a @ x @ b)"
proof -
  have "length a \<in> set [0..<Suc (length (a @ x @ b))]" by simp
  moreover have "take (length x) (drop (length a) (a @ x @ b)) = x" by simp
  ultimately show ?thesis unfolding isInfixOf_def list_ex_iff by blast
qed

lemma length_toString_3: "n < 1000 \<Longrightarrow> length (toString n) \<le> 3"
proof -
  assume n: "n < 1000"
  consider "n < 10" | "10 \<le> n" "n < 100" | "100 \<le> n" by linarith
  then show ?thesis
  proof cases
    case 1 then show ?thesis by (simp add: toString_1)
  next
    case 2 then show ?thesis by (simp add: toString_2)
  next
    case 3 with n show ?thesis by (simp add: toString_3)
  qed
qed

text \<open>
  C5. For a page number of at most 999 with no entry in the registry and outside the
  detail ranges 201-205, 301-305 and 501-505, \<open>getPage\<close> returns (it is a total
  function: there is nothing to throw) the error page of that number: its content has
  a line with \<open>PAGE NOT FOUND\<close>, a line that names the requested page number, at most
  23 lines, and no line longer than 40 characters.
\<close>

theorem getPage_not_found:
  assumes "n \<le> 999" and "pageRegistry n = None"
    and "n \<notin> {201..205}" and "n \<notin> {301..305}" and "n \<notin> {501..505}"
  shows "pageNumber (getPage api n) = n \<and>
         title (getPage api n) = ''Error'' \<and>
         list_ex (isInfixOf ''PAGE NOT FOUND'') (content (getPage api n)) \<and>
         list_ex (isInfixOf (''Page '' @ toString n)) (content (getPage api n)) \<and>
         length (content (getPage api n)) \<le> 23 \<and>
         (\<forall>l \<in> set (content (getPage api n)). length l \<le> 40)"
proof -
  have nd: "\<not> isDetailPage n" using assms(3-5) by (simp add: isDetailPage_def)
  have g: "getPage api n = createErrorPage n"
    using assms(2) nd by (simp add: getPage_def)
  have l3: "length (toString n) \<le> 3" using assms(1) by (intro length_toString_3) simp
  have c: "content (createErrorPage n) =
        [''PAGE NOT FOUND'', '''', ''Page '' @ toString n @ '' does not exist.'', '''',
         ''Please try another page number.'', '''', ''Press 100 to return to the index.'']"
    by (simp add: createErrorPage_def)
  have i1: "isInfixOf ''PAGE NOT FOUND'' ''PAGE NOT FOUND''"
    using isInfixOf_mid [of "''PAGE NOT FOUND''" "[]" "[]"] by simp
  have i2: "isInfixOf (''Page '' @ toString n) (''Page '' @ toString n @ '' does not exist.'')"
    using isInfixOf_mid [of "''Page '' @ toString n" "[]" "'' does not exist.''"] by simp
  have p1: "pageNumber (getPage api n) = n" by (simp add: g createErrorPage_def)
  have p2: "title (getPage api n) = ''Error''" by (simp add: g createErrorPage_def)
  have p3: "list_ex (isInfixOf ''PAGE NOT FOUND'') (content (getPage api n))"
    unfolding g c using i1 by simp
  have p4: "list_ex (isInfixOf (''Page '' @ toString n)) (content (getPage api n))"
    unfolding g c using i2 by simp
  have p5: "length (content (getPage api n)) \<le> 23" unfolding g c by simp
  have p6: "\<forall>l \<in> set (content (getPage api n)). length l \<le> 40"
    unfolding g c using l3 by simp
  from p1 p2 p3 p4 p5 p6 show ?thesis by (intro conjI)
qed

theorem getPage_not_found_witness:
  "content (getPage \<lparr>getNewsDetailPage = \<lambda>i. [], getTechDetailPage = \<lambda>i. [],
                      getSportsDetailPage = \<lambda>i. []\<rparr> 999) ! 2 = ''Page 999 does not exist.'' \<and>
   list_ex (isInfixOf ''Page 999'')
     (content (getPage \<lparr>getNewsDetailPage = \<lambda>i. [], getTechDetailPage = \<lambda>i. [],
                      getSportsDetailPage = \<lambda>i. []\<rparr> 999))"
proof -
  let ?api = "\<lparr>getNewsDetailPage = \<lambda>i. [], getTechDetailPage = \<lambda>i. [],
                      getSportsDetailPage = \<lambda>i. []\<rparr>"
  have r: "pageRegistry 999 = None" by (simp add: pageRegistry_def)
  have "list_ex (isInfixOf (''Page '' @ toString 999)) (content (getPage ?api 999))"
    using getPage_not_found [of 999 ?api] r by simp
  moreover have "toString 999 = ''999''" by code_simp
  moreover have "content (getPage ?api 999) ! 2 = ''Page 999 does not exist.''" by code_simp
  ultimately show ?thesis by simp
qed


section \<open>Word wrap within the width\<close>

lemma clampIndex_nat: "clampIndex len (int i) = min i len"
  by (simp add: clampIndex_def)

lemma length_substring_le: "length (substring s (int i) (int (i + w))) \<le> w"
proof -
  have "max (min i (length s)) (min (i + w) (length s)) - min (min i (length s)) (min (i + w) (length s)) \<le> w"
    by linarith
  then show ?thesis
    unfolding substring_def Let_def clampIndex_nat by simp
qed

lemma chunkLoop_ok:
  assumes "0 < width" and "\<forall>l \<in> set lns. length l \<le> width"
  shows "\<exists>r. chunkLoop word width i lns = Some r \<and> (\<forall>l \<in> set r. length l \<le> width)"
  using assms(2)
proof (induction "length word - i" arbitrary: i lns rule: less_induct)
  case less
  show ?case
  proof (cases "i < length word")
    case True
    let ?lns = "lns @ [substring word (int i) (int (i + width))]"
    have "length word - (i + width) < length word - i" using True assms(1) by linarith
    moreover have "\<forall>l \<in> set ?lns. length l \<le> width"
      using less.prems length_substring_le by auto
    ultimately have "\<exists>r. chunkLoop word width (i + width) ?lns = Some r \<and>
        (\<forall>l \<in> set r. length l \<le> width)"
      by (rule less.hyps)
    then show ?thesis using True by (subst chunkLoop.simps) simp
  next
    case False
    then show ?thesis using less.prems by (subst chunkLoop.simps) simp
  qed
qed

lemma pushLine_ok:
  "\<forall>l \<in> set lns. length l \<le> width \<Longrightarrow> length cur \<le> width \<Longrightarrow>
   \<forall>l \<in> set (pushLine lns cur). length l \<le> width"
  by (simp add: pushLine_def)

lemma wrapWords_ok:
  assumes "0 < width"
  shows "\<forall>l \<in> set lns. length l \<le> width \<Longrightarrow> length cur \<le> width \<Longrightarrow>
     \<exists>r c. wrapWords width ws lns cur = Some (r, c) \<and>
        (\<forall>l \<in> set r. length l \<le> width) \<and> length c \<le> width"
proof (induction ws arbitrary: lns cur)
  case Nil
  then show ?case by simp
next
  case (Cons word ws)
  have pl: "\<forall>l \<in> set (pushLine lns cur). length l \<le> width"
    using Cons.prems by (rule pushLine_ok)
  show ?case
  proof (cases "width < length word")
    case True
    obtain r where r: "chunkLoop word width 0 (pushLine lns cur) = Some r"
      and rl: "\<forall>l \<in> set r. length l \<le> width"
      using chunkLoop_ok [OF assms pl] by blast
    have "\<exists>r' c. wrapWords width ws r [] = Some (r', c) \<and>
        (\<forall>l \<in> set r'. length l \<le> width) \<and> length c \<le> width"
      using rl by (intro Cons.IH) simp_all
    then show ?thesis using True r by simp
  next
    case False
    let ?test = "if cur \<noteq> [] then cur @ '' '' @ word else word"
    show ?thesis
    proof (cases "length ?test \<le> width")
      case fits: True
      have "\<exists>r c. wrapWords width ws lns ?test = Some (r, c) \<and>
        (\<forall>l \<in> set r. length l \<le> width) \<and> length c \<le> width"
        using Cons.prems(1) fits by (rule Cons.IH)
      then show ?thesis using False fits by (simp add: Let_def)
    next
      case over: False
      have "length word \<le> width" using False by simp
      with pl have "\<exists>r c. wrapWords width ws (pushLine lns cur) word = Some (r, c) \<and>
        (\<forall>l \<in> set r. length l \<le> width) \<and> length c \<le> width"
        by (rule Cons.IH)
      then show ?thesis using False over by (simp add: Let_def)
    qed
  qed
qed

lemma wordWrap_ok:
  assumes "1 \<le> width"
  shows "\<exists>lns. wordWrap text width = Some lns \<and> (\<forall>l \<in> set lns. length l \<le> width)"
proof (cases "text = []")
  case True
  then show ?thesis by (simp add: wordWrap_def)
next
  case False
  let ?ws = "splitOn CHR '' '' (cleanText text)"
  have "0 < width" using assms by simp
  then have "\<exists>r c. wrapWords width ?ws [] [] = Some (r, c) \<and>
        (\<forall>l \<in> set r. length l \<le> width) \<and> length c \<le> width"
    by (rule wrapWords_ok) simp_all
  then obtain r c where w: "wrapWords width ?ws [] [] = Some (r, c)"
    and rl: "\<forall>l \<in> set r. length l \<le> width" and cl: "length c \<le> width"
    by blast
  have "\<forall>l \<in> set (pushLine r c). length l \<le> width" using rl cl by (rule pushLine_ok)
  moreover have "wordWrap text width = Some (pushLine r c)"
    using False w by (simp add: wordWrap_def Let_def)
  ultimately show ?thesis by blast
qed

lemma chunksOf_Nil: "chunksOf w [] = []"
  by (subst chunksOf.simps) simp

lemma chunksOf_step: "0 < w \<Longrightarrow> xs \<noteq> [] \<Longrightarrow> chunksOf w xs = take w xs # chunksOf w (drop w xs)"
  by (subst chunksOf.simps) simp

lemma concat_chunksOf: "0 < w \<Longrightarrow> concat (chunksOf w xs) = xs"
proof (induction "length xs" arbitrary: xs rule: less_induct)
  case less
  show ?case
  proof (cases "xs = []")
    case True
    then show ?thesis by (simp add: chunksOf_Nil)
  next
    case False
    then have "length (drop w xs) < length xs" using less.prems by simp
    then have IH: "concat (chunksOf w (drop w xs)) = drop w xs" using less.prems by (rule less.hyps)
    have st: "chunksOf w xs = take w xs # chunksOf w (drop w xs)"
      using less.prems False by (rule chunksOf_step)
    show ?thesis unfolding st by (simp add: IH)
  qed
qed

lemma chunksOf_chunk:
  "0 < w \<Longrightarrow> ch \<in> set (chunksOf w xs) \<Longrightarrow> ch \<noteq> [] \<and> length ch \<le> w"
proof (induction "length xs" arbitrary: xs rule: less_induct)
  case less
  show ?case
  proof (cases "xs = []")
    case True
    with less.prems(2) show ?thesis by (simp add: chunksOf_Nil)
  next
    case False
    have st: "chunksOf w xs = take w xs # chunksOf w (drop w xs)"
      using less.prems(1) False by (rule chunksOf_step)
    from less.prems(2) have "ch = take w xs \<or> ch \<in> set (chunksOf w (drop w xs))"
      unfolding st by simp
    then show ?thesis
    proof
      assume "ch = take w xs"
      then show ?thesis using False less.prems(1) by simp
    next
      assume in_rest: "ch \<in> set (chunksOf w (drop w xs))"
      have "length (drop w xs) < length xs" using False less.prems(1) by simp
      then show ?thesis using less.prems(1) in_rest by (rule less.hyps)
    qed
  qed
qed

lemma chunksOf_full:
  "0 < w \<Longrightarrow> ch \<in> set (butlast (chunksOf w xs)) \<Longrightarrow> length ch = w"
proof (induction "length xs" arbitrary: xs rule: less_induct)
  case less
  show ?case
  proof (cases "xs = []")
    case True
    with less.prems(2) show ?thesis by (simp add: chunksOf_Nil)
  next
    case False
    have st: "chunksOf w xs = take w xs # chunksOf w (drop w xs)"
      using less.prems(1) False by (rule chunksOf_step)
    show ?thesis
    proof (cases "chunksOf w (drop w xs) = []")
      case True
      with less.prems(2) show ?thesis unfolding st by simp
    next
      case rest: False
      then have "drop w xs \<noteq> []" using chunksOf_Nil [of w] by auto
      then have full: "length (take w xs) = w" by simp
      from less.prems(2) rest
      have "ch = take w xs \<or> ch \<in> set (butlast (chunksOf w (drop w xs)))"
        unfolding st by simp
      then show ?thesis
      proof
        assume "ch = take w xs"
        then show ?thesis using full by simp
      next
        assume in_rest: "ch \<in> set (butlast (chunksOf w (drop w xs)))"
        have "length (drop w xs) < length xs" using False less.prems(1) by simp
        then show ?thesis using less.prems(1) in_rest by (rule less.hyps)
      qed
    qed
  qed
qed

lemma substring_chunk: "i < length s \<Longrightarrow> substring s (int i) (int i + int w) = take w (drop i s)"
proof -
  assume i: "i < length s"
  have a: "clampIndex (length s) (int i) = i" using i by (simp add: clampIndex_nat)
  have b: "clampIndex (length s) (int i + int w) = min (i + w) (length s)"
    using clampIndex_nat [of "length s" "i + w"] by simp
  have m1: "max i (min (i + w) (length s)) = min (i + w) (length s)" using i by simp
  have m2: "min i (min (i + w) (length s)) = i" using i by simp
  have d: "min (i + w) (length s) - i = min w (length (drop i s))" using i by simp
  have t: "take (min w (length (drop i s))) (drop i s) = take w (drop i s)"
    by (simp add: min_def)
  show ?thesis unfolding substring_def Let_def a b m1 m2 d t by (rule refl)
qed

lemma chunkLoop_eq:
  assumes "0 < width"
  shows "chunkLoop word width i lns = Some (lns @ chunksOf width (drop i word))"
proof (induction "length word - i" arbitrary: i lns rule: less_induct)
  case less
  show ?case
  proof (cases "i < length word")
    case True
    have "length word - (i + width) < length word - i" using True assms by linarith
    then have "chunkLoop word width (i + width) (lns @ [substring word (int i) (int (i + width))]) =
        Some ((lns @ [substring word (int i) (int (i + width))]) @ chunksOf width (drop (i + width) word))"
      by (rule less.hyps)
    moreover have "chunksOf width (drop i word) =
        take width (drop i word) # chunksOf width (drop width (drop i word))"
      using assms by (rule chunksOf_step) (use True in simp)
    moreover have "drop width (drop i word) = drop (i + width) word" by (simp add: add.commute)
    moreover have "substring word (int i) (int (i + width)) = take width (drop i word)"
      using substring_chunk [OF True, of width] by simp
    ultimately show ?thesis
      using True by (subst chunkLoop.simps) simp
  next
    case False
    then show ?thesis by (subst chunkLoop.simps) (simp add: chunksOf_Nil)
  qed
qed

lemma wrapWords_long:
  "0 < width \<Longrightarrow> width < length word \<Longrightarrow>
   wrapWords width (word # ws) lns cur =
     wrapWords width ws (pushLine lns cur @ chunksOf width word) []"
  by (simp add: chunkLoop_eq)

lemma wrapWords_fits:
  "length word \<le> width \<Longrightarrow> length (if cur \<noteq> [] then cur @ '' '' @ word else word) \<le> width \<Longrightarrow>
   wrapWords width (word # ws) lns cur =
     wrapWords width ws lns (if cur \<noteq> [] then cur @ '' '' @ word else word)"
  by (simp add: Let_def)

lemma wrapWords_over:
  "length word \<le> width \<Longrightarrow> \<not> length (if cur \<noteq> [] then cur @ '' '' @ word else word) \<le> width \<Longrightarrow>
   wrapWords width (word # ws) lns cur = wrapWords width ws (pushLine lns cur) word"
  by (simp add: Let_def)


lemma wrapWords_step:
  assumes "0 < width"
  shows "(width < length word \<and>
           wrapWords width (word # ws) lns cur =
             wrapWords width ws (pushLine lns cur @ chunksOf width word) []) \<or>
         (length word \<le> width \<and>
           wrapWords width (word # ws) lns cur =
             wrapWords width ws lns (if cur \<noteq> [] then cur @ '' '' @ word else word)) \<or>
         (length word \<le> width \<and>
           wrapWords width (word # ws) lns cur = wrapWords width ws (pushLine lns cur) word)"
proof (cases "width < length word")
  case True
  then show ?thesis using wrapWords_long [OF assms True] by blast
next
  case False
  then have w: "length word \<le> width" by simp
  show ?thesis
  proof (cases "length (if cur \<noteq> [] then cur @ '' '' @ word else word) \<le> width")
    case True
    then show ?thesis using wrapWords_fits [OF w True] w by blast
  next
    case False
    then show ?thesis using wrapWords_over [OF w False] w by blast
  qed
qed

lemma wrapWords_extends:
  assumes "0 < width"
  shows "wrapWords width ws lns cur = Some (r, c) \<Longrightarrow> \<exists>ext. r = lns @ ext"
proof (induction ws arbitrary: lns cur)
  case Nil
  then show ?case by simp
next
  case (Cons word ws)
  from wrapWords_step [OF assms, of word ws lns cur] show ?case
  proof (elim disjE conjE, goal_cases)
    case 1
    then have "wrapWords width ws (pushLine lns cur @ chunksOf width word) [] = Some (r, c)"
      using Cons.prems by simp
    then have "\<exists>ext. r = (pushLine lns cur @ chunksOf width word) @ ext" by (rule Cons.IH)
    then show ?case by (auto simp: pushLine_def)
  next
    case 2
    then have "wrapWords width ws lns (if cur \<noteq> [] then cur @ '' '' @ word else word) = Some (r, c)"
      using Cons.prems by simp
    then show ?case by (rule Cons.IH)
  next
    case 3
    then have "wrapWords width ws (pushLine lns cur) word = Some (r, c)"
      using Cons.prems by simp
    then have "\<exists>ext. r = pushLine lns cur @ ext" by (rule Cons.IH)
    then show ?case by (auto simp: pushLine_def)
  qed
qed

lemma wrapWords_chunks:
  assumes "0 < width"
  shows "wrapWords width ws lns cur = Some (r, c) \<Longrightarrow> word \<in> set ws \<Longrightarrow> width < length word \<Longrightarrow>
     \<exists>pre post. r = pre @ chunksOf width word @ post"
proof (induction ws arbitrary: lns cur)
  case Nil
  then show ?case by simp
next
  case (Cons w ws)
  show ?case
  proof (cases "word = w")
    case True
    then have "wrapWords width ws (pushLine lns cur @ chunksOf width word) [] = Some (r, c)"
      using Cons.prems wrapWords_long [OF assms, of w ws lns cur] by simp
    then have "\<exists>ext. r = (pushLine lns cur @ chunksOf width word) @ ext"
      by (rule wrapWords_extends [OF assms])
    then obtain ext where "r = pushLine lns cur @ chunksOf width word @ ext" by auto
    then show ?thesis by blast
  next
    case False
    then have in_ws: "word \<in> set ws" using Cons.prems(2) by simp
    from wrapWords_step [OF assms, of w ws lns cur] show ?thesis
    proof (elim disjE conjE, goal_cases)
      case 1
      then have "wrapWords width ws (pushLine lns cur @ chunksOf width w) [] = Some (r, c)"
        using Cons.prems(1) by simp
      then show ?case using in_ws Cons.prems(3) by (rule Cons.IH)
    next
      case 2
      then have "wrapWords width ws lns (if cur \<noteq> [] then cur @ '' '' @ w else w) = Some (r, c)"
        using Cons.prems(1) by simp
      then show ?case using in_ws Cons.prems(3) by (rule Cons.IH)
    next
      case 3
      then have "wrapWords width ws (pushLine lns cur) w = Some (r, c)"
        using Cons.prems(1) by simp
      then show ?case using in_ws Cons.prems(3) by (rule Cons.IH)
    qed
  qed
qed

lemma concat_pushLine: "concat (pushLine lns cur) = concat lns @ cur"
  by (simp add: pushLine_def)

lemma wrapWords_chars:
  assumes "0 < width"
  shows "wrapWords width ws lns cur = Some (r, c) \<Longrightarrow>
     filter (\<lambda>x. x \<noteq> CHR '' '') (concat r @ c) =
       filter (\<lambda>x. x \<noteq> CHR '' '') (concat lns @ cur) @ filter (\<lambda>x. x \<noteq> CHR '' '') (concat ws)"
proof (induction ws arbitrary: lns cur)
  case Nil
  then show ?case by simp
next
  case (Cons word ws)
  let ?F = "filter (\<lambda>x. x \<noteq> CHR '' '')"
  from wrapWords_step [OF assms, of word ws lns cur] show ?case
  proof (elim disjE conjE, goal_cases)
    case 1
    then have "wrapWords width ws (pushLine lns cur @ chunksOf width word) [] = Some (r, c)"
      using Cons.prems by simp
    then have "?F (concat r @ c) =
        ?F (concat (pushLine lns cur @ chunksOf width word) @ []) @ ?F (concat ws)"
      by (rule Cons.IH)
    then show ?case by (simp add: concat_pushLine concat_chunksOf [OF assms])
  next
    case 2
    then have "wrapWords width ws lns (if cur \<noteq> [] then cur @ '' '' @ word else word) = Some (r, c)"
      using Cons.prems by simp
    then have "?F (concat r @ c) =
        ?F (concat lns @ (if cur \<noteq> [] then cur @ '' '' @ word else word)) @ ?F (concat ws)"
      by (rule Cons.IH)
    then show ?case by simp
  next
    case 3
    then have "wrapWords width ws (pushLine lns cur) word = Some (r, c)"
      using Cons.prems by simp
    then have "?F (concat r @ c) = ?F (concat (pushLine lns cur) @ word) @ ?F (concat ws)"
      by (rule Cons.IH)
    then show ?case by (simp add: concat_pushLine)
  qed
qed

lemma concat_splitOn: "concat (splitOn sep s) = filter (\<lambda>x. x \<noteq> sep) s"
proof (induction s)
  case Nil
  show ?case by simp
next
  case (Cons c cs)
  show ?case
  proof (cases "c = sep")
    case True
    then show ?thesis using Cons.IH by simp
  next
    case False
    show ?thesis
    proof (cases "splitOn sep cs")
      case Nil
      then show ?thesis using False Cons.IH by simp
    next
      case (Cons w ws)
      then show ?thesis using False Cons.IH by simp
    qed
  qed
qed

lemma cleanText_Nil: "cleanText [] = []"
  by (simp add: cleanText_def trim_def)

lemma wordWrap_full:
  assumes "1 \<le> width"
  shows "\<exists>lns. wordWrap text width = Some lns \<and>
      (\<forall>l \<in> set lns. length l \<le> width) \<and>
      filter (\<lambda>x. x \<noteq> CHR '' '') (concat lns) = filter (\<lambda>x. x \<noteq> CHR '' '') (cleanText text) \<and>
      (\<forall>word \<in> set (splitOn CHR '' '' (cleanText text)). width < length word \<longrightarrow>
         (\<exists>pre chunks post. lns = pre @ chunks @ post \<and> concat chunks = word \<and>
            (\<forall>ch \<in> set chunks. ch \<noteq> [] \<and> length ch \<le> width) \<and>
            (\<forall>ch \<in> set (butlast chunks). length ch = width)))"
proof (cases "text = []")
  case True
  have e: "wordWrap text width = Some []" using True by (simp add: wordWrap_def)
  have c: "cleanText text = []" using True by (simp add: cleanText_Nil)
  show ?thesis
  proof (intro exI [of _ "[]"] conjI)
    show "wordWrap text width = Some []" by (rule e)
  qed (simp_all add: c)
next
  case False
  let ?ws = "splitOn CHR '' '' (cleanText text)"
  let ?F = "filter (\<lambda>x. x \<noteq> CHR '' '')"
  have pos: "0 < width" using assms by simp
  then have "\<exists>r c. wrapWords width ?ws [] [] = Some (r, c) \<and>
        (\<forall>l \<in> set r. length l \<le> width) \<and> length c \<le> width"
    by (rule wrapWords_ok) simp_all
  then obtain r c where w: "wrapWords width ?ws [] [] = Some (r, c)"
    and rl: "\<forall>l \<in> set r. length l \<le> width" and cl: "length c \<le> width"
    by blast
  have res: "wordWrap text width = Some (pushLine r c)"
    using False w by (simp add: wordWrap_def Let_def)
  have bound: "\<forall>l \<in> set (pushLine r c). length l \<le> width" using rl cl by (rule pushLine_ok)
  have "?F (concat r @ c) = ?F (concat [] @ []) @ ?F (concat ?ws)"
    using w by (rule wrapWords_chars [OF pos])
  then have chars: "?F (concat (pushLine r c)) = ?F (cleanText text)"
    by (simp add: concat_pushLine concat_splitOn)
  have chunks: "\<exists>pre chunks post. pushLine r c = pre @ chunks @ post \<and> concat chunks = word \<and>
            (\<forall>ch \<in> set chunks. ch \<noteq> [] \<and> length ch \<le> width) \<and>
            (\<forall>ch \<in> set (butlast chunks). length ch = width)"
    if wd: "word \<in> set ?ws" and lg: "width < length word" for word
  proof -
    obtain pre post where r: "r = pre @ chunksOf width word @ post"
      using wrapWords_chunks [OF pos w wd lg] by blast
    have "pushLine r c = pre @ chunksOf width word @ (if c \<noteq> [] then post @ [c] else post)"
      unfolding r pushLine_def by simp
    then obtain post' where p: "pushLine r c = pre @ chunksOf width word @ post'" by blast
    have 1: "concat (chunksOf width word) = word" using pos by (rule concat_chunksOf)
    have 2: "\<forall>ch \<in> set (chunksOf width word). ch \<noteq> [] \<and> length ch \<le> width"
      using chunksOf_chunk [OF pos] by blast
    have 3: "\<forall>ch \<in> set (butlast (chunksOf width word)). length ch = width"
      using chunksOf_full [OF pos] by blast
    from p 1 2 3 show ?thesis by (intro exI conjI)
  qed
  show ?thesis
  proof (intro exI [of _ "pushLine r c"] conjI)
    show "wordWrap text width = Some (pushLine r c)" by (rule res)
  next
    show "\<forall>l \<in> set (pushLine r c). length l \<le> width" by (rule bound)
  next
    show "?F (concat (pushLine r c)) = ?F (cleanText text)" by (rule chars)
  next
    show "\<forall>word \<in> set ?ws. width < length word \<longrightarrow>
         (\<exists>pre chunks post. pushLine r c = pre @ chunks @ post \<and> concat chunks = word \<and>
            (\<forall>ch \<in> set chunks. ch \<noteq> [] \<and> length ch \<le> width) \<and>
            (\<forall>ch \<in> set (butlast chunks). length ch = width))"
      by (intro ballI impI) (rule chunks)
  qed
qed

text \<open>
  C10. For every text and every width of at least 1, \<open>wordWrap\<close> returns (its loops
  end) and every line it returns has at most \<open>width\<close> characters. No character of
  the cleaned text other than a space is lost or moved: the lines, spaces removed, read
  the same as the cleaned text, spaces removed. Every word of the cleaned text longer
  than \<open>width\<close> is in the result as consecutive lines, in order, whose concatenation is
  the word: non-empty chunks of at most \<open>width\<close> characters, each but the last of
  exactly \<open>width\<close>. At the default width, \<open>GRID.COLUMNS\<close>, every line has at most 40
  characters.
\<close>

theorem wordWrap_width:
  assumes "1 \<le> width"
  shows "(\<exists>lns. wordWrap text width = Some lns \<and>
            (\<forall>l \<in> set lns. length l \<le> width) \<and>
            filter (\<lambda>x. x \<noteq> CHR '' '') (concat lns) =
              filter (\<lambda>x. x \<noteq> CHR '' '') (cleanText text) \<and>
            (\<forall>word \<in> set (splitOn CHR '' '' (cleanText text)). width < length word \<longrightarrow>
               (\<exists>pre chunks post. lns = pre @ chunks @ post \<and> concat chunks = word \<and>
                  (\<forall>ch \<in> set chunks. ch \<noteq> [] \<and> length ch \<le> width) \<and>
                  (\<forall>ch \<in> set (butlast chunks). length ch = width)))) \<and>
         (\<exists>lns. wordWrap text COLUMNS = Some lns \<and> (\<forall>l \<in> set lns. length l \<le> 40))"
proof
  show "\<exists>lns. wordWrap text width = Some lns \<and>
            (\<forall>l \<in> set lns. length l \<le> width) \<and>
            filter (\<lambda>x. x \<noteq> CHR '' '') (concat lns) =
              filter (\<lambda>x. x \<noteq> CHR '' '') (cleanText text) \<and>
            (\<forall>word \<in> set (splitOn CHR '' '' (cleanText text)). width < length word \<longrightarrow>
               (\<exists>pre chunks post. lns = pre @ chunks @ post \<and> concat chunks = word \<and>
                  (\<forall>ch \<in> set chunks. ch \<noteq> [] \<and> length ch \<le> width) \<and>
                  (\<forall>ch \<in> set (butlast chunks). length ch = width)))"
    using assms by (rule wordWrap_full)
next
  have "\<exists>lns. wordWrap text COLUMNS = Some lns \<and> (\<forall>l \<in> set lns. length l \<le> COLUMNS)"
    by (rule wordWrap_ok) (simp add: COLUMNS_def)
  then show "\<exists>lns. wordWrap text COLUMNS = Some lns \<and> (\<forall>l \<in> set lns. length l \<le> 40)"
    by (simp add: COLUMNS_def)
qed

theorem wordWrap_width_witness:
  "wordWrap ''Hello <b>big</b> world&amp;co   supercalifragilistic'' 5 =
     Some [''Hello'', ''big'', ''world'', ''&co'', ''super'', ''calif'', ''ragil'', ''istic'']"
proof -
  let ?text = "''Hello <b>big</b> world&amp;co   supercalifragilistic''"
  have "(1::nat) \<le> 5" by simp
  then have "\<exists>lns. wordWrap ?text 5 = Some lns \<and>
            (\<forall>l \<in> set lns. length l \<le> 5) \<and>
            filter (\<lambda>x. x \<noteq> CHR '' '') (concat lns) =
              filter (\<lambda>x. x \<noteq> CHR '' '') (cleanText ?text) \<and>
            (\<forall>word \<in> set (splitOn CHR '' '' (cleanText ?text)). 5 < length word \<longrightarrow>
               (\<exists>pre chunks post. lns = pre @ chunks @ post \<and> concat chunks = word \<and>
                  (\<forall>ch \<in> set chunks. ch \<noteq> [] \<and> length ch \<le> 5) \<and>
                  (\<forall>ch \<in> set (butlast chunks). length ch = 5)))"
    by (rule wordWrap_width [THEN conjunct1])
  then obtain lns where l: "wordWrap ?text 5 = Some lns" by (elim exE conjE)
  moreover have "wordWrap ?text 5 =
     Some [''Hello'', ''big'', ''world'', ''&co'', ''super'', ''calif'', ''ragil'', ''istic'']"
    by code_simp
  ultimately show ?thesis by simp
qed


section \<open>Navigation by keystrokes\<close>

lemma isDigitKey_iff: "isDigitKey k \<longleftrightarrow> (\<exists>c. k = [c] \<and> isDigit c)"
  by (cases k rule: list.exhaust; cases "tl k") (auto simp: isDigitKey_def split: list.splits)

lemma isDigit_not_space: "isDigit c \<Longrightarrow> \<not> isWhiteSpace c"
  by (auto simp: isDigit_def isWhiteSpace_def)

lemma isDigit_not_sign: "isDigit c \<Longrightarrow> c \<noteq> CHR ''-'' \<and> c \<noteq> CHR ''+''"
  by (auto simp: isDigit_def)

lemma parseInt_digits:
  assumes "ds \<noteq> []" and "list_all isDigit ds"
  shows "parseInt ds = Num (int (digitsValue ds))"
proof -
  obtain c cs where ds: "ds = c # cs" using assms(1) by (cases ds) auto
  have c: "isDigit c" using assms(2) ds by simp
  have 1: "dropWhile isWhiteSpace ds = ds" using isDigit_not_space [OF c] ds by simp
  have 2: "hd ds \<noteq> CHR ''-''" "hd ds \<noteq> CHR ''+''" using isDigit_not_sign [OF c] ds by simp_all
  have 3: "takeWhile isDigit ds = ds" using assms(2) by (simp add: list_all_iff)
  show ?thesis unfolding parseInt_def Let_def 1 by (simp add: 2 3 assms(1))
qed

lemma digitsValue_3: "digitsValue [a, b, c] = 100 * digitValue a + 10 * digitValue b + digitValue c"
  by (simp add: digitsValue_def)

lemma parseInt_3:
  assumes "isDigit d1" "isDigit d2" "isDigit d3"
  shows "parseInt [d1, d2, d3] = Num (int (100 * digitValue d1 + 10 * digitValue d2 + digitValue d3))"
  using parseInt_digits [of "[d1, d2, d3]"] assms by (simp add: digitsValue_3)

lemma addDigit_ignored: "\<not> isDigitKey k \<Longrightarrow> addDigit k s = s"
  by (simp add: addDigit_def)

lemma addDigit_full: "3 \<le> length (pageBuffer s) \<Longrightarrow> addDigit k s = s"
  by (simp add: addDigit_def)

lemma addDigit_append:
  "isDigit c \<Longrightarrow> length (pageBuffer s) < 2 \<Longrightarrow> addDigit [c] s = s\<lparr>pageBuffer := pageBuffer s @ [c]\<rparr>"
  by (simp add: addDigit_def isDigitKey_def)

lemma addDigit_third:
  "isDigit c \<Longrightarrow> length (pageBuffer s) = 2 \<Longrightarrow>
   addDigit [c] s = s\<lparr>pageBuffer := pageBuffer s @ [c],
                       timeouts := timeouts s @ [Resolve (parseInt (pageBuffer s @ [c]))]\<rparr>"
  by (simp add: addDigit_def isDigitKey_def Let_def)

lemma three_digits:
  assumes "isDigit d1" "isDigit d2" "isDigit d3" and "pageBuffer s = []"
  shows "addDigit [d3] (addDigit [d2] (addDigit [d1] s)) =
     s\<lparr>pageBuffer := [d1, d2, d3],
       timeouts := timeouts s @
         [Resolve (Num (int (100 * digitValue d1 + 10 * digitValue d2 + digitValue d3)))]\<rparr>"
proof -
  have 1: "addDigit [d1] s = s\<lparr>pageBuffer := [d1]\<rparr>"
    using assms by (simp add: addDigit_append)
  have 2: "addDigit [d2] (s\<lparr>pageBuffer := [d1]\<rparr>) = s\<lparr>pageBuffer := [d1, d2]\<rparr>"
    using assms by (simp add: addDigit_append)
  have 3: "addDigit [d3] (s\<lparr>pageBuffer := [d1, d2]\<rparr>) =
      s\<lparr>pageBuffer := [d1, d2, d3], timeouts := timeouts s @ [Resolve (parseInt [d1, d2, d3])]\<rparr>"
    using assms by (simp add: addDigit_third)
  show ?thesis unfolding 1 2 3 parseInt_3 [OF assms(1-3)] by (rule refl)
qed

text \<open>
  C1, as the code has it. For three digit keystrokes \<open>d1 d2 d3\<close> fed to \<open>addDigit\<close> from
  an empty buffer with no timeout pending, the third keystroke leaves the buffer holding
  \<open>d1 d2 d3\<close>, the current page and the page changes untouched, and one timeout
  pending that carries the base-10 value of \<open>d1 d2 d3\<close>; when that timeout runs, the
  current page is that value, the buffer is empty, and exactly one page change carrying
  that value has been added.
\<close>

theorem addDigit_three_digits:
  assumes "isDigit d1" and "isDigit d2" and "isDigit d3"
    and "pageBuffer s = []" and "timeouts s = []"
  shows "pageBuffer (addDigit [d3] (addDigit [d2] (addDigit [d1] s))) = [d1, d2, d3] \<and>
         currentPage (addDigit [d3] (addDigit [d2] (addDigit [d1] s))) = currentPage s \<and>
         pageChanges (addDigit [d3] (addDigit [d2] (addDigit [d1] s))) = pageChanges s \<and>
         timeouts (addDigit [d3] (addDigit [d2] (addDigit [d1] s))) =
           [Resolve (Num (int (100 * digitValue d1 + 10 * digitValue d2 + digitValue d3)))] \<and>
         currentPage (timerFires (addDigit [d3] (addDigit [d2] (addDigit [d1] s)))) =
           Num (int (100 * digitValue d1 + 10 * digitValue d2 + digitValue d3)) \<and>
         pageBuffer (timerFires (addDigit [d3] (addDigit [d2] (addDigit [d1] s)))) = [] \<and>
         pageChanges (timerFires (addDigit [d3] (addDigit [d2] (addDigit [d1] s)))) =
           pageChanges s @ [Num (int (100 * digitValue d1 + 10 * digitValue d2 + digitValue d3))]"
  unfolding three_digits [OF assms(1-4)] using assms(5) by (simp add: timerFires_def)

theorem addDigit_three_digits_witness:
  "pageBuffer (timerFires (addDigit ''0'' (addDigit ''0'' (addDigit ''3'' (useNavigation (Num 100)))))) = [] \<and>
   currentPage (timerFires (addDigit ''0'' (addDigit ''0'' (addDigit ''3'' (useNavigation (Num 100)))))) = Num 300 \<and>
   pageChanges (timerFires (addDigit ''0'' (addDigit ''0'' (addDigit ''3'' (useNavigation (Num 100)))))) = [Num 300]"
  using addDigit_three_digits [of "CHR ''3''" "CHR ''0''" "CHR ''0''" "useNavigation (Num 100)"]
  by (simp add: isDigit_def useNavigation_def digitValue_def)

text \<open>
  C1 as stated fails: after the keystrokes \<open>3\<close>, \<open>0\<close>, \<open>0\<close> on page 100 and before the
  timeout runs, the state a render reads has a buffer of length 3, the current page
  still 100 and no page change.
\<close>

theorem addDigit_not_atomic:
  "pageBuffer (addDigit ''0'' (addDigit ''0'' (addDigit ''3'' (useNavigation (Num 100))))) = ''300'' \<and>
   currentPage (addDigit ''0'' (addDigit ''0'' (addDigit ''3'' (useNavigation (Num 100))))) = Num 100 \<and>
   pageChanges (addDigit ''0'' (addDigit ''0'' (addDigit ''3'' (useNavigation (Num 100))))) = [] \<and>
   \<not> (currentPage (addDigit ''0'' (addDigit ''0'' (addDigit ''3'' (useNavigation (Num 100))))) = Num 300 \<and>
      pageBuffer (addDigit ''0'' (addDigit ''0'' (addDigit ''3'' (useNavigation (Num 100))))) = [] \<and>
      pageChanges (addDigit ''0'' (addDigit ''0'' (addDigit ''3'' (useNavigation (Num 100))))) = [Num 300])"
  by (simp add: addDigit_def isDigitKey_def isDigit_def useNavigation_def Let_def)

lemma navPhase_init: "navPhase p [] (useNavigation p)"
  by (simp add: navPhase_def useNavigation_def)

lemma pageChanges_addDigit: "pageChanges (addDigit k s) = pageChanges s"
  by (simp add: addDigit_def Let_def)

lemma navPhase_digit:
  assumes c: "isDigit c" and inv: "navPhase p ds st"
  shows "navPhase p (ds @ [c]) (addDigit [c] st)"
proof -
  consider
    (typing) "pageChanges st = []" "timeouts st = []" "pageBuffer st = ds" "length ds < 3"
      "currentPage st = p"
  | (full) "pageChanges st = []" "timeouts st = [Resolve (parseInt (take 3 ds))]"
      "pageBuffer st = take 3 ds" "3 \<le> length ds" "currentPage st = p"
  | (resolved) "pageChanges st \<noteq> []" "hd (pageChanges st) = parseInt (take 3 ds)" "3 \<le> length ds"
    using inv unfolding navPhase_def by blast
  then show ?thesis
  proof cases
    case typing
    show ?thesis
    proof (cases "length ds < 2")
      case True
      then have "addDigit [c] st = st\<lparr>pageBuffer := pageBuffer st @ [c]\<rparr>"
        using c typing(3) by (intro addDigit_append) simp_all
      then show ?thesis using typing True by (simp add: navPhase_def)
    next
      case False
      then have l: "length ds = 2" using typing(4) by simp
      then have "addDigit [c] st = st\<lparr>pageBuffer := pageBuffer st @ [c],
          timeouts := timeouts st @ [Resolve (parseInt (pageBuffer st @ [c]))]\<rparr>"
        using c typing(3) by (intro addDigit_third) simp_all
      then show ?thesis using typing l by (simp add: navPhase_def)
    qed
  next
    case full
    then have "addDigit [c] st = st" by (intro addDigit_full) simp
    then show ?thesis using full by (simp add: navPhase_def)
  next
    case resolved
    then show ?thesis by (simp add: navPhase_def pageChanges_addDigit)
  qed
qed

lemma timerFires_resolved:
  "pageChanges s \<noteq> [] \<Longrightarrow>
   pageChanges (timerFires s) \<noteq> [] \<and> hd (pageChanges (timerFires s)) = hd (pageChanges s)"
proof (cases "timeouts s")
  case Nil
  assume "pageChanges s \<noteq> []"
  with Nil show ?thesis by (simp add: timerFires_def)
next
  case (Cons t ts)
  assume "pageChanges s \<noteq> []"
  with Cons show ?thesis by (cases t) (simp_all add: timerFires_def)
qed

lemma navPhase_timer:
  assumes inv: "navPhase p ds st"
  shows "navPhase p ds (timerFires st)"
proof -
  consider
    (typing) "pageChanges st = []" "timeouts st = []" "pageBuffer st = ds" "length ds < 3"
      "currentPage st = p"
  | (full) "pageChanges st = []" "timeouts st = [Resolve (parseInt (take 3 ds))]"
      "pageBuffer st = take 3 ds" "3 \<le> length ds" "currentPage st = p"
  | (resolved) "pageChanges st \<noteq> []" "hd (pageChanges st) = parseInt (take 3 ds)" "3 \<le> length ds"
    using inv unfolding navPhase_def by blast
  then show ?thesis
  proof cases
    case typing
    then have "timerFires st = st" by (simp add: timerFires_def)
    then show ?thesis using inv by simp
  next
    case full
    then show ?thesis by (simp add: navPhase_def timerFires_def)
  next
    case resolved
    then show ?thesis using timerFires_resolved [of st] by (simp add: navPhase_def)
  qed
qed

lemma run_snoc: "run (es @ [e]) s = dispatch e (run es s)"
  by (simp add: run_def)

lemma digitKeys_snoc_key:
  "digitKeys (es @ [KeyDown k]) = digitKeys es @ (if isDigitKey (key k) then key k else [])"
  by (simp add: digitKeys_def)

lemma digitKeys_snoc_timer: "digitKeys (es @ [Timer]) = digitKeys es"
  by (simp add: digitKeys_def)

lemma navPhase_run: "navPhase p (digitKeys es) (run es (useNavigation p))"
proof (induction es rule: rev_induct)
  case Nil
  show ?case using navPhase_init by (simp add: run_def digitKeys_def)
next
  case (snoc e es)
  show ?case
  proof (cases e)
    case (KeyDown k)
    show ?thesis
    proof (cases "isDigitKey (key k)")
      case True
      then obtain c where kc: "key k = [c]" and c: "isDigit c" using isDigitKey_iff by blast
      have "navPhase p (digitKeys es @ [c]) (addDigit [c] (run es (useNavigation p)))"
        using c snoc.IH by (rule navPhase_digit)
      then show ?thesis
        using True kc unfolding KeyDown run_snoc digitKeys_snoc_key
        by (simp add: handleKeyDown_def)
    next
      case False
      then show ?thesis
        using snoc.IH unfolding KeyDown run_snoc digitKeys_snoc_key
        by (simp add: handleKeyDown_def)
    qed
  next
    case Timer
    show ?thesis
      using navPhase_timer [OF snoc.IH] unfolding Timer run_snoc digitKeys_snoc_timer by simp
  qed
qed

lemma digitKeys_digits: "list_all isDigit (digitKeys es)"
proof (induction es)
  case Nil
  show ?case by (simp add: digitKeys_def)
next
  case (Cons e es)
  then have IH: "list_all isDigit (concat (map (\<lambda>e. case e of KeyDown k \<Rightarrow> if isDigitKey (key k) then key k else [] | Timer \<Rightarrow> []) es))"
    by (simp add: digitKeys_def)
  show ?case
  proof (cases e)
    case (KeyDown k)
    show ?thesis
    proof (cases "isDigitKey (key k)")
      case True
      then obtain c where "key k = [c]" "isDigit c" using isDigitKey_iff by blast
      then show ?thesis using IH KeyDown True by (simp add: digitKeys_def)
    next
      case False
      then show ?thesis using IH KeyDown by (simp add: digitKeys_def)
    qed
  next
    case Timer
    then show ?thesis using IH by (simp add: digitKeys_def)
  qed
qed

lemma first_page_change:
  assumes "pageChanges (run es (useNavigation p)) \<noteq> []"
  shows "3 \<le> length (digitKeys es) \<and>
         hd (pageChanges (run es (useNavigation p))) =
           Num (int (digitsValue (take 3 (digitKeys es))))"
proof -
  have "navPhase p (digitKeys es) (run es (useNavigation p))" by (rule navPhase_run)
  with assms have l: "3 \<le> length (digitKeys es)"
    and h: "hd (pageChanges (run es (useNavigation p))) = parseInt (take 3 (digitKeys es))"
    unfolding navPhase_def by blast+
  have "list_all isDigit (take 3 (digitKeys es))"
    using digitKeys_digits [of es] by (auto simp: list_all_iff dest: in_set_takeD)
  moreover have "take 3 (digitKeys es) \<noteq> []" using l by auto
  ultimately have "parseInt (take 3 (digitKeys es)) = Num (int (digitsValue (take 3 (digitKeys es))))"
    by (intro parseInt_digits)
  with l h show ?thesis by simp
qed

lemma handleKeyDown_ignored: "\<not> isDigitKey (key e) \<Longrightarrow> handleKeyDown e s = s"
  by (simp add: handleKeyDown_def)

lemma handleKeyDown_key_only: "key e' = key e \<Longrightarrow> handleKeyDown e' s = handleKeyDown e s"
  by (simp add: handleKeyDown_def)

lemma pageChanges_keys: "pageChanges (run (map KeyDown ks) s) = pageChanges s"
proof (induction ks rule: rev_induct)
  case Nil
  show ?case by (simp add: run_def)
next
  case (snoc k ks)
  have "run (map KeyDown (ks @ [k])) s = handleKeyDown k (run (map KeyDown ks) s)"
    using run_snoc [of "map KeyDown ks" "KeyDown k" s] by simp
  then show ?case using snoc.IH by (simp add: handleKeyDown_def pageChanges_addDigit)
qed

lemma keys_then_timer:
  assumes "3 \<le> length (digitKeys (map KeyDown ks))"
  shows "currentPage (run (map KeyDown ks @ [Timer]) (useNavigation p)) =
           Num (int (digitsValue (take 3 (digitKeys (map KeyDown ks))))) \<and>
         pageBuffer (run (map KeyDown ks @ [Timer]) (useNavigation p)) = [] \<and>
         pageChanges (run (map KeyDown ks @ [Timer]) (useNavigation p)) =
           [Num (int (digitsValue (take 3 (digitKeys (map KeyDown ks)))))]"
proof -
  let ?es = "map KeyDown ks"
  let ?st = "run ?es (useNavigation p)"
  let ?ds = "digitKeys ?es"
  have pc: "pageChanges ?st = []" by (simp add: pageChanges_keys useNavigation_def)
  have "navPhase p ?ds ?st" by (rule navPhase_run)
  with pc assms have t: "timeouts ?st = [Resolve (parseInt (take 3 ?ds))]"
    unfolding navPhase_def by auto
  have "list_all isDigit (take 3 ?ds)"
    using digitKeys_digits [of ?es] by (auto simp: list_all_iff dest: in_set_takeD)
  moreover have "take 3 ?ds \<noteq> []" using assms by auto
  ultimately have pi: "parseInt (take 3 ?ds) = Num (int (digitsValue (take 3 ?ds)))"
    by (intro parseInt_digits)
  have r: "run (?es @ [Timer]) (useNavigation p) = timerFires ?st"
    using run_snoc [of ?es Timer "useNavigation p"] by simp
  show ?thesis unfolding r using t pc pi by (simp add: timerFires_def)
qed

lemma keys_partial:
  assumes "length (digitKeys (map KeyDown ks)) < 3"
  shows "pageBuffer (run (map KeyDown ks) (useNavigation p)) = digitKeys (map KeyDown ks) \<and>
         currentPage (run (map KeyDown ks) (useNavigation p)) = p \<and>
         pageChanges (run (map KeyDown ks) (useNavigation p)) = []"
proof -
  have "navPhase p (digitKeys (map KeyDown ks)) (run (map KeyDown ks) (useNavigation p))"
    by (rule navPhase_run)
  with assms show ?thesis unfolding navPhase_def by auto
qed

text \<open>
  C2. A key is taken as a digit exactly when it is one character of \<open>0\<close>..\<open>9\<close>; any
  other key leaves the whole state of the hook (buffer, current page, page changes) as it
  was, in \<open>addDigit\<close> and in the keydown handler, which reads the key only and no
  modifier flag. For every interleaving of keystrokes and expired timeouts from a fresh
  hook, the first page change carries the base-10 value of the first three digit
  characters typed (for digits \<open>a b c\<close> that value is \<open>100 a + 10 b + c\<close>); when the
  keystrokes all arrive before the timeout runs, three or more digits end on that page
  with an empty buffer and exactly one page change, and fewer than three leave the
  digits in the buffer and the page unchanged.
\<close>

theorem keystrokes_spec:
  "(isDigitKey k \<longleftrightarrow> (\<exists>c. k = [c] \<and> isDigit c)) \<and>
   digitsValue [a, b, c] = 100 * digitValue a + 10 * digitValue b + digitValue c \<and>
   (\<not> isDigitKey k \<longrightarrow> addDigit k s = s) \<and>
   (\<not> isDigitKey (key e) \<longrightarrow> handleKeyDown e s = s) \<and>
   (key e' = key e \<longrightarrow> handleKeyDown e' s = handleKeyDown e s) \<and>
   (pageChanges (run es (useNavigation p)) \<noteq> [] \<longrightarrow>
      3 \<le> length (digitKeys es) \<and>
      hd (pageChanges (run es (useNavigation p))) =
        Num (int (digitsValue (take 3 (digitKeys es))))) \<and>
   (3 \<le> length (digitKeys (map KeyDown ks)) \<longrightarrow>
      currentPage (run (map KeyDown ks @ [Timer]) (useNavigation p)) =
        Num (int (digitsValue (take 3 (digitKeys (map KeyDown ks))))) \<and>
      pageBuffer (run (map KeyDown ks @ [Timer]) (useNavigation p)) = [] \<and>
      pageChanges (run (map KeyDown ks @ [Timer]) (useNavigation p)) =
        [Num (int (digitsValue (take 3 (digitKeys (map KeyDown ks)))))]) \<and>
   (length (digitKeys (map KeyDown ks)) < 3 \<longrightarrow>
      pageBuffer (run (map KeyDown ks) (useNavigation p)) = digitKeys (map KeyDown ks) \<and>
      currentPage (run (map KeyDown ks) (useNavigation p)) = p \<and>
      pageChanges (run (map KeyDown ks) (useNavigation p)) = [])"
  using isDigitKey_iff [of k] digitsValue_3 [of a b c] addDigit_ignored [of k s]
    handleKeyDown_ignored [of e s]
    handleKeyDown_key_only [of e' e s] first_page_change [of es p]
    keys_then_timer [of ks p] keys_partial [of ks p]
  by blast

theorem keystrokes_spec_witness:
  "handleKeyDown \<lparr>key = ''a'', shiftKey = False, ctrlKey = True, altKey = False, metaKey = False\<rparr>
       (useNavigation (Num 100)) = useNavigation (Num 100) \<and>
   addDigit ''Enter'' (useNavigation (Num 100)) = useNavigation (Num 100) \<and>
   hd (pageChanges (run
       [KeyDown \<lparr>key = ''3'', shiftKey = False, ctrlKey = False, altKey = False, metaKey = False\<rparr>,
        KeyDown \<lparr>key = ''Tab'', shiftKey = False, ctrlKey = False, altKey = False, metaKey = False\<rparr>,
        KeyDown \<lparr>key = ''0'', shiftKey = False, ctrlKey = False, altKey = False, metaKey = False\<rparr>,
        Timer,
        KeyDown \<lparr>key = ''0'', shiftKey = False, ctrlKey = False, altKey = False, metaKey = False\<rparr>,
        KeyDown \<lparr>key = ''5'', shiftKey = False, ctrlKey = False, altKey = False, metaKey = False\<rparr>,
        Timer]
       (useNavigation (Num 100)))) = Num 300 \<and>
   currentPage (run (map KeyDown
       [\<lparr>key = ''6'', shiftKey = False, ctrlKey = False, altKey = False, metaKey = False\<rparr>,
        \<lparr>key = ''x'', shiftKey = True, ctrlKey = False, altKey = False, metaKey = False\<rparr>,
        \<lparr>key = ''6'', shiftKey = False, ctrlKey = False, altKey = False, metaKey = False\<rparr>,
        \<lparr>key = ''6'', shiftKey = False, ctrlKey = False, altKey = False, metaKey = False\<rparr>,
        \<lparr>key = ''1'', shiftKey = False, ctrlKey = False, altKey = False, metaKey = False\<rparr>] @ [Timer])
       (useNavigation (Num 100))) = Num 666"
proof -
  let ?a = "\<lparr>key = ''a'', shiftKey = False, ctrlKey = True, altKey = False, metaKey = False\<rparr>"
  let ?es = "[KeyDown \<lparr>key = ''3'', shiftKey = False, ctrlKey = False, altKey = False, metaKey = False\<rparr>,
        KeyDown \<lparr>key = ''Tab'', shiftKey = False, ctrlKey = False, altKey = False, metaKey = False\<rparr>,
        KeyDown \<lparr>key = ''0'', shiftKey = False, ctrlKey = False, altKey = False, metaKey = False\<rparr>,
        Timer,
        KeyDown \<lparr>key = ''0'', shiftKey = False, ctrlKey = False, altKey = False, metaKey = False\<rparr>,
        KeyDown \<lparr>key = ''5'', shiftKey = False, ctrlKey = False, altKey = False, metaKey = False\<rparr>,
        Timer]"
  let ?ks = "[\<lparr>key = ''6'', shiftKey = False, ctrlKey = False, altKey = False, metaKey = False\<rparr>,
        \<lparr>key = ''x'', shiftKey = True, ctrlKey = False, altKey = False, metaKey = False\<rparr>,
        \<lparr>key = ''6'', shiftKey = False, ctrlKey = False, altKey = False, metaKey = False\<rparr>,
        \<lparr>key = ''6'', shiftKey = False, ctrlKey = False, altKey = False, metaKey = False\<rparr>,
        \<lparr>key = ''1'', shiftKey = False, ctrlKey = False, altKey = False, metaKey = False\<rparr>]"
  note spec = keystrokes_spec [of "''Enter''" "CHR ''3''" "CHR ''0''" "CHR ''0''"
    "useNavigation (Num 100)" ?a ?a ?es "Num 100" ?ks]
  have 1: "\<not> isDigitKey ''Enter''" by (simp add: isDigitKey_def)
  have 2: "\<not> isDigitKey (key ?a)" by (simp add: isDigitKey_def isDigit_def)
  have 3: "pageChanges (run ?es (useNavigation (Num 100))) \<noteq> []" by code_simp
  have 4: "digitsValue (take 3 (digitKeys ?es)) = 300" by code_simp
  have 5: "3 \<le> length (digitKeys (map KeyDown ?ks))" by code_simp
  have 6: "digitsValue (take 3 (digitKeys (map KeyDown ?ks))) = 666" by code_simp
  from spec 1 2 3 4 5 6 show ?thesis by simp
qed


section \<open>Colours in the content area\<close>

lemma renderChar_char: "spanChar (fst (renderChar m col ch)) = ch"
  by (simp add: renderChar_def split: option.splits)

lemma renderChar_calls:
  "color \<in> set (snd (renderChar m col ch)) \<longleftrightarrow> m col = Some color \<and> color \<noteq> []"
  by (auto simp: renderChar_def split: option.splits)

lemma ex_zip_upt:
  "(\<exists>p \<in> set (zip [0..<length xs] xs). Q (fst p) (snd p)) \<longleftrightarrow> (\<exists>i < length xs. Q i (xs ! i))"
proof
  assume "\<exists>p \<in> set (zip [0..<length xs] xs). Q (fst p) (snd p)"
  then obtain p where p: "p \<in> set (zip [0..<length xs] xs)" and q: "Q (fst p) (snd p)"
    by blast
  from p obtain i where "i < length xs" "p = (i, xs ! i)" by (auto simp: set_zip)
  with q show "\<exists>i < length xs. Q i (xs ! i)" by auto
next
  assume "\<exists>i < length xs. Q i (xs ! i)"
  then obtain i where i: "i < length xs" and q: "Q i (xs ! i)" by blast
  have "(i, xs ! i) \<in> set (zip [0..<length xs] xs)"
    using i by (auto simp: set_zip intro!: exI [of _ i])
  with q show "\<exists>p \<in> set (zip [0..<length xs] xs). Q (fst p) (snd p)" by force
qed

lemma renderLine_text: "textContent (fst (renderLine cols i l)) = l"
proof -
  have "map (\<lambda>x. spanChar (fst (case x of (colIndex, ch) \<Rightarrow> renderChar m colIndex ch)))
          (zip [0..<length l] l) = l" for m
    by (rule nth_equalityI) (simp_all add: renderChar_char)
  then show ?thesis
    by (simp add: renderLine_def Let_def comp_def split: option.splits)
qed

lemma renderLine_calls:
  "color \<in> set (snd (renderLine cols i l)) \<longleftrightarrow>
     (\<exists>cm m col. cols = Some cm \<and> cm (i + 2) = Some m \<and> col < length l \<and>
        m col = Some color \<and> color \<noteq> [])"
proof (cases cols)
  case None
  then show ?thesis by (simp add: renderLine_def)
next
  case (Some cm)
  show ?thesis
  proof (cases "cm (i + 2)")
    case None
    with Some show ?thesis by (simp add: renderLine_def)
  next
    case m: (Some m)
    have "color \<in> set (snd (renderLine cols i l)) \<longleftrightarrow>
        (\<exists>p \<in> set (zip [0..<length l] l). color \<in> set (snd (renderChar m (fst p) (snd p))))"
      using Some m by (simp add: renderLine_def Let_def case_prod_unfold)
    also have "\<dots> \<longleftrightarrow> (\<exists>col < length l. color \<in> set (snd (renderChar m col (l ! col))))"
      by (rule ex_zip_upt)
    also have "\<dots> \<longleftrightarrow> (\<exists>col. col < length l \<and> m col = Some color \<and> color \<noteq> [])"
      by (simp add: renderChar_calls)
    finally show ?thesis using Some m by simp
  qed
qed

lemma ContentArea_text:
  "map textContent (fst (ContentArea c)) = map truncateText (truncateLines (lines c))"
  by (rule nth_equalityI) (simp_all add: ContentArea_def Let_def renderLine_text)

lemma ContentArea_calls:
  "color \<in> set (snd (ContentArea c)) \<longleftrightarrow>
     (\<exists>cm m row col. colors c = Some cm \<and> row < length (truncateLines (lines c)) \<and>
        cm (row + 2) = Some m \<and> col < length (truncateText (truncateLines (lines c) ! row)) \<and>
        m col = Some color \<and> color \<noteq> [])"
proof -
  let ?T = "truncateLines (lines c)"
  let ?P = "map truncateText ?T"
  have step: "color \<in> set (snd (renderLine (colors c) row (?P ! row))) \<longleftrightarrow>
      (\<exists>cm m col. colors c = Some cm \<and> cm (row + 2) = Some m \<and>
        col < length (truncateText (?T ! row)) \<and> m col = Some color \<and> color \<noteq> [])"
    if "row < length ?T" for row
    using that by (simp add: renderLine_calls)
  have "color \<in> set (snd (ContentArea c)) \<longleftrightarrow>
      (\<exists>p \<in> set (zip [0..<length ?P] ?P). color \<in> set (snd (renderLine (colors c) (fst p) (snd p))))"
    by (simp add: ContentArea_def Let_def case_prod_unfold)
  also have "\<dots> \<longleftrightarrow> (\<exists>row < length ?P. color \<in> set (snd (renderLine (colors c) row (?P ! row))))"
    by (rule ex_zip_upt)
  also have "\<dots> \<longleftrightarrow> (\<exists>row < length ?T. color \<in> set (snd (renderLine (colors c) row (?P ! row))))"
    by simp
  also have "\<dots> \<longleftrightarrow> (\<exists>row < length ?T.
      (\<exists>cm m col. colors c = Some cm \<and> cm (row + 2) = Some m \<and>
        col < length (truncateText (?T ! row)) \<and> m col = Some color \<and> color \<noteq> []))"
    using step by blast
  finally show ?thesis by blast
qed

lemma getTeletextColorHex_valid: "isValidTeletextColor color \<Longrightarrow> \<exists>h. getTeletextColorHex color = Hex h"
  by (auto simp: isValidTeletextColor_def getTeletextColorHex_def)

lemma getTeletextColorHex_invalid:
  "\<not> isValidTeletextColor color \<Longrightarrow> color \<notin> set Object_prototype_keys \<Longrightarrow>
   getTeletextColorHex color = Undefined"
  by (simp add: isValidTeletextColor_def getTeletextColorHex_def)

lemma ContentArea_bounds:
  "length (fst (ContentArea c)) \<le> 23 \<and> (\<forall>row \<in> set (fst (ContentArea c)). length (textContent row) \<le> 40)"
proof -
  have t: "map textContent (fst (ContentArea c)) = map (take 40) (take 23 (lines c))"
    using ContentArea_text [of c] by (simp add: truncateText_take [abs_def] truncateLines_take)
  have "length (map textContent (fst (ContentArea c))) \<le> 23" unfolding t by simp
  then have 1: "length (fst (ContentArea c)) \<le> 23" by simp
  have "\<forall>l \<in> set (map textContent (fst (ContentArea c))). length l \<le> 40"
    unfolding t by auto
  then have 2: "\<forall>row \<in> set (fst (ContentArea c)). length (textContent row) \<le> 40" by simp
  from 1 2 show ?thesis by (rule conjI)
qed

lemma ContentArea_calls_raw:
  "color \<in> set (snd (ContentArea c)) \<longleftrightarrow>
     (\<exists>cm m row col. colors c = Some cm \<and> row < length (lines c) \<and> row < 23 \<and>
        cm (row + 2) = Some m \<and> col < length (lines c ! row) \<and> col < 40 \<and>
        m col = Some color \<and> color \<noteq> [])"
proof -
  have "(row < length (truncateLines (lines c)) \<and> cm (row + 2) = Some m \<and>
         col < length (truncateText (truncateLines (lines c) ! row)) \<and>
         m col = Some color \<and> color \<noteq> []) \<longleftrightarrow>
        (row < length (lines c) \<and> row < 23 \<and> cm (row + 2) = Some m \<and>
         col < length (lines c ! row) \<and> col < 40 \<and>
         m col = Some color \<and> color \<noteq> [])" for row col cm m
    by (auto simp: truncateText_take truncateLines_take)
  then show ?thesis unfolding ContentArea_calls by blast
qed

lemma renderChar_span:
  "fst (renderChar m col ch) =
     (case m col of None \<Rightarrow> Span ch
      | Some color \<Rightarrow> if color = [] then Span ch else StyledSpan ch (getTeletextColorHex color))"
  by (simp add: renderChar_def split: option.splits)

lemma ContentArea_length: "length (fst (ContentArea c)) = min (length (lines c)) 23"
  by (simp add: ContentArea_def Let_def truncateLines_take)

lemma ContentArea_row:
  assumes "row < length (lines c)" and "row < 23"
  shows "fst (ContentArea c) ! row = fst (renderLine (colors c) row (take 40 (lines c ! row)))"
proof -
  let ?P = "map truncateText (truncateLines (lines c))"
  have n: "row < length ?P" using assms by (simp add: truncateLines_take)
  have p: "?P ! row = take 40 (lines c ! row)"
    using assms by (simp add: truncateLines_take truncateText_take)
  have "fst (ContentArea c) ! row =
      fst (case zip [0..<length ?P] ?P ! row of (rowIndex, line) \<Rightarrow> renderLine (colors c) rowIndex line)"
    using n by (simp add: ContentArea_def Let_def)
  also have "zip [0..<length ?P] ?P ! row = (row, ?P ! row)" using n by simp
  finally show ?thesis by (simp add: p)
qed

lemma renderLine_plain:
  "cols = None \<or> (\<exists>cm. cols = Some cm \<and> cm (row + 2) = None) \<Longrightarrow>
   fst (renderLine cols row l) = PlainLine l"
  by (auto simp: renderLine_def)

lemma renderLine_spans:
  assumes "cols = Some cm" and "cm (row + 2) = Some m"
  shows "\<exists>spans. fst (renderLine cols row l) = SpanLine spans \<and> length spans = length l \<and>
     (\<forall>col < length spans. spans ! col =
        (case m col of None \<Rightarrow> Span (l ! col)
         | Some color \<Rightarrow> if color = [] then Span (l ! col)
                          else StyledSpan (l ! col) (getTeletextColorHex color)))"
proof -
  let ?spans = "map fst (map (\<lambda>(colIndex, ch). renderChar m colIndex ch) (zip [0..<length l] l))"
  have 1: "fst (renderLine cols row l) = SpanLine ?spans"
    using assms by (simp add: renderLine_def Let_def)
  have 2: "length ?spans = length l" by simp
  have 3: "?spans ! col = (case m col of None \<Rightarrow> Span (l ! col)
         | Some color \<Rightarrow> if color = [] then Span (l ! col)
                          else StyledSpan (l ! col) (getTeletextColorHex color))"
    if "col < length l" for col
    using that by (simp add: renderChar_span)
  show ?thesis
  proof (intro exI [of _ ?spans] conjI allI impI)
    show "fst (renderLine cols row l) = SpanLine ?spans" by (rule 1)
  next
    show "length ?spans = length l" by (rule 2)
  next
    fix col assume "col < length ?spans"
    then have "col < length l" by simp
    then show "?spans ! col = (case m col of None \<Rightarrow> Span (l ! col)
         | Some color \<Rightarrow> if color = [] then Span (l ! col)
                          else StyledSpan (l ! col) (getTeletextColorHex color))"
      by (rule 3)
  qed
qed

lemma ContentArea_plain:
  assumes "row < length (lines c)" and "row < 23"
    and "colors c = None \<or> (\<exists>cm. colors c = Some cm \<and> cm (row + 2) = None)"
  shows "fst (ContentArea c) ! row = PlainLine (take 40 (lines c ! row))"
  unfolding ContentArea_row [OF assms(1,2)] using assms(3) by (rule renderLine_plain)

lemma ContentArea_spans:
  assumes "row < length (lines c)" and "row < 23"
    and "colors c = Some cm" and "cm (row + 2) = Some m"
  shows "\<exists>spans. fst (ContentArea c) ! row = SpanLine spans \<and>
     length spans = min (length (lines c ! row)) 40 \<and>
     (\<forall>col < length spans. spans ! col =
        (case m col of None \<Rightarrow> Span (lines c ! row ! col)
         | Some color \<Rightarrow> if color = [] then Span (lines c ! row ! col)
                          else StyledSpan (lines c ! row ! col) (getTeletextColorHex color)))"
proof -
  let ?l = "take 40 (lines c ! row)"
  obtain spans where s: "fst (renderLine (colors c) row ?l) = SpanLine spans"
    and n: "length spans = length ?l"
    and e: "\<forall>col < length spans. spans ! col =
        (case m col of None \<Rightarrow> Span (?l ! col)
         | Some color \<Rightarrow> if color = [] then Span (?l ! col)
                          else StyledSpan (?l ! col) (getTeletextColorHex color))"
    using renderLine_spans [OF assms(3,4), of ?l] by (elim exE conjE)
  have e': "spans ! col =
        (case m col of None \<Rightarrow> Span (lines c ! row ! col)
         | Some color \<Rightarrow> if color = [] then Span (lines c ! row ! col)
                          else StyledSpan (lines c ! row ! col) (getTeletextColorHex color))"
    if "col < length spans" for col
  proof -
    have "col < 40" using that n by simp
    then have h: "?l ! col = lines c ! row ! col" by simp
    from e that have "spans ! col =
        (case m col of None \<Rightarrow> Span (?l ! col)
         | Some color \<Rightarrow> if color = [] then Span (?l ! col)
                          else StyledSpan (?l ! col) (getTeletextColorHex color))"
      by blast
    then show ?thesis unfolding h .
  qed
  show ?thesis
  proof (intro exI [of _ spans] conjI allI impI)
    show "fst (ContentArea c) ! row = SpanLine spans"
      unfolding ContentArea_row [OF assms(1,2)] by (rule s)
  next
    show "length spans = min (length (lines c ! row)) 40" using n by simp
  next
    fix col assume "col < length spans"
    then show "spans ! col =
        (case m col of None \<Rightarrow> Span (lines c ! row ! col)
         | Some color \<Rightarrow> if color = [] then Span (lines c ! row ! col)
                          else StyledSpan (lines c ! row ! col) (getTeletextColorHex color))"
      by (rule e')
  qed
qed

lemma two_elements: "length xs = 2 \<Longrightarrow> xs = [xs ! 0, xs ! 1]"
  by (cases xs; cases "tl xs") auto

text \<open>
  C4, as the code has it. The content area renders \<open>min(lines.length, 23)\<close> rows, each
  the first 40 characters of its line, so a colour is attached only to characters within
  the truncated bounds. A row whose grid row (its index plus 2) has no colour map is the
  plain line. In a row that has one, the character at each column is a span: with no
  annotation, or an empty one, at its column it has no style; with a non-empty
  annotation it is styled with what \<open>getTeletextColorHex\<close> returns for that very
  annotation. Nothing validates the annotation: the colours passed to
  \<open>getTeletextColorHex\<close> are exactly the non-empty annotations at a row below 23 and a
  column below 40 that the page has, valid or not. The lookup gives each of the 8 palette
  names its own hex value, and \<open>undefined\<close> for any other name that is not a member
  of \<open>Object.prototype\<close>, which leaves that character without a colour. Rendering is
  a total function: it has nothing to throw.
\<close>

theorem ContentArea_colors:
  "length (fst (ContentArea c)) = min (length (lines c)) 23 \<and>
   map textContent (fst (ContentArea c)) = map truncateText (truncateLines (lines c)) \<and>
   length (fst (ContentArea c)) \<le> 23 \<and>
   (\<forall>r \<in> set (fst (ContentArea c)). length (textContent r) \<le> 40) \<and>
   (row < length (lines c) \<and> row < 23 \<and>
      (colors c = None \<or> (\<exists>cm'. colors c = Some cm' \<and> cm' (row + 2) = None)) \<longrightarrow>
      fst (ContentArea c) ! row = PlainLine (take 40 (lines c ! row))) \<and>
   (row < length (lines c) \<and> row < 23 \<and> colors c = Some cm \<and> cm (row + 2) = Some m \<longrightarrow>
      (\<exists>spans. fst (ContentArea c) ! row = SpanLine spans \<and>
         length spans = min (length (lines c ! row)) 40 \<and>
         (\<forall>col < length spans. spans ! col =
            (case m col of None \<Rightarrow> Span (lines c ! row ! col)
             | Some color \<Rightarrow> if color = [] then Span (lines c ! row ! col)
                              else StyledSpan (lines c ! row ! col) (getTeletextColorHex color))))) \<and>
   (color \<in> set (snd (ContentArea c)) \<longleftrightarrow>
     (\<exists>cm' m' row' col. colors c = Some cm' \<and> row' < length (lines c) \<and> row' < 23 \<and>
        cm' (row' + 2) = Some m' \<and> col < length (lines c ! row') \<and> col < 40 \<and>
        m' col = Some color \<and> color \<noteq> [])) \<and>
   getTeletextColorHex ''black'' = Hex ''#000000'' \<and>
   getTeletextColorHex ''white'' = Hex ''#FFFFFF'' \<and>
   getTeletextColorHex ''red'' = Hex ''#FF0000'' \<and>
   getTeletextColorHex ''green'' = Hex ''#00FF00'' \<and>
   getTeletextColorHex ''blue'' = Hex ''#0000FF'' \<and>
   getTeletextColorHex ''yellow'' = Hex ''#FFFF00'' \<and>
   getTeletextColorHex ''cyan'' = Hex ''#00FFFF'' \<and>
   getTeletextColorHex ''magenta'' = Hex ''#FF00FF'' \<and>
   (isValidTeletextColor color \<longrightarrow> (\<exists>h. getTeletextColorHex color = Hex h)) \<and>
   (\<not> isValidTeletextColor color \<and> color \<notin> set Object_prototype_keys \<longrightarrow>
      getTeletextColorHex color = Undefined)"
proof -
  have plain: "row < length (lines c) \<and> row < 23 \<and>
      (colors c = None \<or> (\<exists>cm'. colors c = Some cm' \<and> cm' (row + 2) = None)) \<longrightarrow>
      fst (ContentArea c) ! row = PlainLine (take 40 (lines c ! row))"
    using ContentArea_plain [of row c] by blast
  have spans: "row < length (lines c) \<and> row < 23 \<and> colors c = Some cm \<and> cm (row + 2) = Some m \<longrightarrow>
      (\<exists>spans. fst (ContentArea c) ! row = SpanLine spans \<and>
         length spans = min (length (lines c ! row)) 40 \<and>
         (\<forall>col < length spans. spans ! col =
            (case m col of None \<Rightarrow> Span (lines c ! row ! col)
             | Some color \<Rightarrow> if color = [] then Span (lines c ! row ! col)
                              else StyledSpan (lines c ! row ! col) (getTeletextColorHex color))))"
  proof (intro impI, elim conjE)
    assume "row < length (lines c)" "row < 23" "colors c = Some cm" "cm (row + 2) = Some m"
    then show "\<exists>spans. fst (ContentArea c) ! row = SpanLine spans \<and>
         length spans = min (length (lines c ! row)) 40 \<and>
         (\<forall>col < length spans. spans ! col =
            (case m col of None \<Rightarrow> Span (lines c ! row ! col)
             | Some color \<Rightarrow> if color = [] then Span (lines c ! row ! col)
                              else StyledSpan (lines c ! row ! col) (getTeletextColorHex color)))"
      by (rule ContentArea_spans)
  qed
  have valid: "isValidTeletextColor color \<longrightarrow> (\<exists>h. getTeletextColorHex color = Hex h)"
    using getTeletextColorHex_valid [of color] by blast
  have invalid: "\<not> isValidTeletextColor color \<and> color \<notin> set Object_prototype_keys \<longrightarrow>
      getTeletextColorHex color = Undefined"
    using getTeletextColorHex_invalid [of color] by blast
  note rows = ContentArea_bounds [of c, THEN conjunct1]
  note bounds = ContentArea_bounds [of c, THEN conjunct2]
  show ?thesis
    by (intro conjI;
        (rule ContentArea_length | rule ContentArea_text | rule rows | rule bounds |
         rule plain | rule spans |
         rule ContentArea_calls_raw | rule valid | rule invalid |
         simp add: getTeletextColorHex_def TELETEXT_COLORS_def))
qed

theorem ContentArea_colors_witness:
  "fst (ContentArea \<lparr>lines = [''AB''], colors = Some [2 \<mapsto> [0 \<mapsto> ''purple'', 1 \<mapsto> ''red'']]\<rparr>) ! 0 =
     SpanLine [StyledSpan CHR ''A'' Undefined, StyledSpan CHR ''B'' (Hex ''#FF0000'')] \<and>
   getTeletextColorHex ''purple'' = Undefined \<and>
   length (fst (ContentArea \<lparr>lines = [''AB''], colors = Some [2 \<mapsto> [0 \<mapsto> ''purple'', 1 \<mapsto> ''red'']]\<rparr>)) = 1"
proof -
  let ?m = "[0 \<mapsto> ''purple'', 1 \<mapsto> ''red''] :: nat \<Rightarrow> string option"
  let ?cm = "[2 \<mapsto> ?m] :: ColorMap"
  let ?c = "\<lparr>lines = [''AB''], colors = Some ?cm\<rparr>"
  note spec = ContentArea_colors [of ?c 0 ?cm ?m "''purple''"]
  have len: "length (fst (ContentArea ?c)) = 1" using spec by simp
  have v: "\<not> isValidTeletextColor ''purple''"
    by (simp add: isValidTeletextColor_def TELETEXT_COLORS_def)
  have p: "''purple'' \<notin> set Object_prototype_keys" by (simp add: Object_prototype_keys_def)
  have u: "getTeletextColorHex ''purple'' = Undefined" using spec v p by blast
  have r: "getTeletextColorHex ''red'' = Hex ''#FF0000''" using spec by blast
  have hyp: "0 < length (lines ?c) \<and> (0::nat) < 23 \<and> colors ?c = Some ?cm \<and> ?cm (0 + 2) = Some ?m"
    by simp
  from spec hyp have "\<exists>spans. fst (ContentArea ?c) ! 0 = SpanLine spans \<and>
         length spans = min (length (lines ?c ! 0)) 40 \<and>
         (\<forall>col < length spans. spans ! col =
            (case ?m col of None \<Rightarrow> Span (lines ?c ! 0 ! col)
             | Some color \<Rightarrow> if color = [] then Span (lines ?c ! 0 ! col)
                              else StyledSpan (lines ?c ! 0 ! col) (getTeletextColorHex color)))"
    by blast
  then obtain spans where s: "fst (ContentArea ?c) ! 0 = SpanLine spans"
    and n: "length spans = min (length (lines ?c ! 0)) 40"
    and e: "\<forall>col < length spans. spans ! col =
            (case ?m col of None \<Rightarrow> Span (lines ?c ! 0 ! col)
             | Some color \<Rightarrow> if color = [] then Span (lines ?c ! 0 ! col)
                              else StyledSpan (lines ?c ! 0 ! col) (getTeletextColorHex color))"
    by (elim exE conjE)
  have n2: "length spans = 2" using n by simp
  have e0: "spans ! 0 = StyledSpan CHR ''A'' Undefined" using e n2 u by simp
  have e1: "spans ! 1 = StyledSpan CHR ''B'' (Hex ''#FF0000'')" using e n2 r by simp
  have "spans = [spans ! 0, spans ! 1]" using n2 by (rule two_elements)
  then have "spans = [StyledSpan CHR ''A'' Undefined, StyledSpan CHR ''B'' (Hex ''#FF0000'')]"
    unfolding e0 e1 .
  with s u len show ?thesis by simp
qed


text \<open>
  C4 as stated fails: with the annotation \<open>purple\<close> on the first character of the first
  content row, the render calls \<open>getTeletextColorHex\<close> with \<open>purple\<close>, which is not a
  palette name.
\<close>

theorem ContentArea_unvalidated_lookup:
  "snd (ContentArea \<lparr>lines = [''AB''], colors = Some [2 \<mapsto> [0 \<mapsto> ''purple'', 1 \<mapsto> ''red'']]\<rparr>) =
     [''purple'', ''red''] \<and>
   \<not> isValidTeletextColor ''purple'' \<and>
   fst (ContentArea \<lparr>lines = [''AB''], colors = Some [2 \<mapsto> [0 \<mapsto> ''purple'', 1 \<mapsto> ''red'']]\<rparr>) =
     [SpanLine [StyledSpan CHR ''A'' Undefined, StyledSpan CHR ''B'' (Hex ''#FF0000'')]]"
  by code_simp


section \<open>Failure of a dynamic content loader\<close>

lemma loadDynamicContent_failure:
  assumes "dynamicContent (getPage api page) = Some loader"
    and "call loader = Rejected \<or> call loader = Threw"
  shows "loadDynamicContent api call page s =
     s\<lparr>isLoadingDynamic := False,
       loadedContent := Some [''ERROR LOADING CONTENT'', '''', ''Please try again later.'']\<rparr>"
  using assms by (auto simp: loadDynamicContent_def loadStart_def)

text \<open>
  C6, as the code has it. When the loader of the target page fails (its promise is
  rejected, or the call throws), \<open>loadDynamicContent\<close> catches the failure and ends
  with the fixed block \<open>ERROR LOADING CONTENT\<close>, an empty line, \<open>Please try again
  later.\<close> as the loaded content and the loading flag lowered; it leaves the screen
  state alone, so the transition that called it ends displaying the page with that
  block. The function returns a state for every outcome of the loader: no failure
  leaves it. The block names no page.
\<close>

theorem load_failure_fallback:
  assumes "dynamicContent (getPage api page) = Some loader"
    and "call loader = Rejected \<or> call loader = Threw"
  shows "loadedContent (loadDynamicContent api call page s) =
           Some [''ERROR LOADING CONTENT'', '''', ''Please try again later.''] \<and>
         isLoadingDynamic (loadDynamicContent api call page s) = False \<and>
         screenState (loadDynamicContent api call page s) = screenState s \<and>
         displayedPage (loadDynamicContent api call page s) = displayedPage s \<and>
         screenState (finishTransition api call page s) = display \<and>
         displayedPage (finishTransition api call page s) = page \<and>
         originalContent api (finishTransition api call page s) =
           [''ERROR LOADING CONTENT'', '''', ''Please try again later.'']"
proof -
  have f: "loadDynamicContent api call page t =
     t\<lparr>isLoadingDynamic := False,
       loadedContent := Some [''ERROR LOADING CONTENT'', '''', ''Please try again later.'']\<rparr>" for t
    using assms by (rule loadDynamicContent_failure)
  show ?thesis unfolding finishTransition_def f by (simp add: originalContent_def)
qed

theorem load_failure_fallback_witness:
  "screenState (finishTransition
       \<lparr>getNewsDetailPage = \<lambda>i. [], getTechDetailPage = \<lambda>i. [], getSportsDetailPage = \<lambda>i. []\<rparr>
       (\<lambda>l. Rejected) 200
       (startTransition 200 (initialScreen\<lparr>isInitialized := True, screenState := display\<rparr>))) = display \<and>
   originalContent
       \<lparr>getNewsDetailPage = \<lambda>i. [], getTechDetailPage = \<lambda>i. [], getSportsDetailPage = \<lambda>i. []\<rparr>
       (finishTransition
         \<lparr>getNewsDetailPage = \<lambda>i. [], getTechDetailPage = \<lambda>i. [], getSportsDetailPage = \<lambda>i. []\<rparr>
         (\<lambda>l. Rejected) 200
         (startTransition 200 (initialScreen\<lparr>isInitialized := True, screenState := display\<rparr>))) =
     [''ERROR LOADING CONTENT'', '''', ''Please try again later.'']"
proof -
  let ?api = "\<lparr>getNewsDetailPage = \<lambda>i. [], getTechDetailPage = \<lambda>i. [], getSportsDetailPage = \<lambda>i. []\<rparr>"
  have "dynamicContent (getPage ?api 200) = Some fetchWorldNews"
    by (simp add: getPage_def pageRegistry_def)
  then show ?thesis
    using load_failure_fallback [of ?api 200 fetchWorldNews "\<lambda>l. Rejected"] by simp
qed

text \<open>
  C6 as stated fails: on page 200 with a rejected loader, the fallback block shown holds
  no digit, so it names no fallback page.
\<close>

theorem load_failure_names_no_page:
  "originalContent
       \<lparr>getNewsDetailPage = \<lambda>i. [], getTechDetailPage = \<lambda>i. [], getSportsDetailPage = \<lambda>i. []\<rparr>
       (finishTransition
         \<lparr>getNewsDetailPage = \<lambda>i. [], getTechDetailPage = \<lambda>i. [], getSportsDetailPage = \<lambda>i. []\<rparr>
         (\<lambda>l. Rejected) 200
         (startTransition 200 (initialScreen\<lparr>isInitialized := True, screenState := display\<rparr>))) =
     [''ERROR LOADING CONTENT'', '''', ''Please try again later.''] \<and>
   \<not> list_ex (list_ex isDigit)
       (originalContent
         \<lparr>getNewsDetailPage = \<lambda>i. [], getTechDetailPage = \<lambda>i. [], getSportsDetailPage = \<lambda>i. []\<rparr>
         (finishTransition
           \<lparr>getNewsDetailPage = \<lambda>i. [], getTechDetailPage = \<lambda>i. [], getSportsDetailPage = \<lambda>i. []\<rparr>
           (\<lambda>l. Rejected) 200
           (startTransition 200 (initialScreen\<lparr>isInitialized := True, screenState := display\<rparr>))))"
  by code_simp


end
